theory Spec2Isabelle
  imports Complex_Main
begin

section \<open>Circuit model\<close>

text \<open>
  The engines of \<^verbatim>\<open>app.py\<close> and \<^verbatim>\<open>war_room.py\<close> (the two files hold the same three
  functions, line for line) build a gate-level circuit through the calls
  \<^verbatim>\<open>qc.x\<close>, \<^verbatim>\<open>qc.h\<close>, \<^verbatim>\<open>qc.cx\<close>, \<^verbatim>\<open>qc.cp\<close>, \<^verbatim>\<open>qc.swap\<close>, \<^verbatim>\<open>qc.barrier\<close>,
  \<^verbatim>\<open>qc.measure\<close> and \<^verbatim>\<open>qc.append\<close>. A circuit is the register sizes it was
  declared with and the instructions in append order. Angles are real numbers
  (the source computes them in double precision from \<^verbatim>\<open>np.pi\<close>).
\<close>

datatype error = IndexError | ValueError | CircuitError | OverflowError | ExecutionFailure

datatype instr =
    is_H: H nat
  | is_X: X nat
  | is_CX: CX nat nat
  | is_CP: CP real nat nat
  | is_Swap: Swap nat nat
  | is_Barrier: Barrier
  | is_Measure: Measure nat nat

record circuit =
  num_qubits :: nat
  num_clbits :: nat
  data :: "instr list"

definition QuantumCircuit :: "nat \<Rightarrow> nat \<Rightarrow> circuit" where
  "QuantumCircuit n m = \<lparr>num_qubits = n, num_clbits = m, data = []\<rparr>"

fun qubits_of :: "instr \<Rightarrow> nat list" where
  "qubits_of (H q) = [q]"
| "qubits_of (X q) = [q]"
| "qubits_of (CX c t) = [c, t]"
| "qubits_of (CP a c t) = [c, t]"
| "qubits_of (Swap a b) = [a, b]"
| "qubits_of Barrier = []"
| "qubits_of (Measure q c) = [q]"

fun clbits_of :: "instr \<Rightarrow> nat list" where
  "clbits_of (Measure q c) = [c]"
| "clbits_of g = []"

text \<open>
  An instruction is accepted when each index it names is inside the declared
  register and no qubit is named twice; the circuit library raises a
  circuit error otherwise.
\<close>

definition instr_ok :: "circuit \<Rightarrow> instr \<Rightarrow> bool" where
  "instr_ok qc g \<longleftrightarrow>
     list_all (\<lambda>q. q < num_qubits qc) (qubits_of g) \<and> distinct (qubits_of g) \<and>
     list_all (\<lambda>c. c < num_clbits qc) (clbits_of g)"

definition append_instr :: "circuit \<Rightarrow> instr \<Rightarrow> error + circuit" where
  "append_instr qc g =
     (if instr_ok qc g then Inr (qc\<lparr>data := data qc @ [g]\<rparr>) else Inl CircuitError)"

text \<open>
  A \<^verbatim>\<open>for x in xs: body\<close> loop whose body appends to the circuit: the body runs
  for each element in order, and the first error ends the loop.
\<close>

fun for_each :: "'a list \<Rightarrow> ('a \<Rightarrow> circuit \<Rightarrow> error + circuit) \<Rightarrow> circuit \<Rightarrow> error + circuit" where
  "for_each [] body qc = Inr qc"
| "for_each (x # xs) body qc =
     (case body x qc of Inl e \<Rightarrow> Inl e | Inr qc' \<Rightarrow> for_each xs body qc')"

text \<open>
  \<^verbatim>\<open>qc.append(sub, qargs)\<close>: the instructions of the sub-circuit act on the
  qubits \<^verbatim>\<open>qargs\<close> of the outer circuit, local qubit \<open>k\<close> on \<open>qargs ! k\<close>. The model
  inlines them; the number of qubits given must be the sub-circuit's size.
\<close>

fun remap :: "nat list \<Rightarrow> instr \<Rightarrow> instr" where
  "remap m (H q) = H (m ! q)"
| "remap m (X q) = X (m ! q)"
| "remap m (CX c t) = CX (m ! c) (m ! t)"
| "remap m (CP a c t) = CP a (m ! c) (m ! t)"
| "remap m (Swap a b) = Swap (m ! a) (m ! b)"
| "remap m Barrier = Barrier"
| "remap m (Measure q c) = Measure (m ! q) c"

definition append_circuit :: "circuit \<Rightarrow> circuit \<Rightarrow> nat list \<Rightarrow> error + circuit" where
  "append_circuit qc sub qargs =
     (if length qargs = num_qubits sub \<and> distinct qargs \<and>
         list_all (\<lambda>q. q < num_qubits qc) qargs \<and> num_clbits sub = 0
      then for_each (data sub) (\<lambda>g c. append_instr c (remap qargs g)) qc
      else Inl CircuitError)"

section \<open>Inverse Fourier sub-circuit builder\<close>

text \<open>
  \<^verbatim>\<open>
  def swap_qubits(qc, n):
      for i in range(n // 2):
          qc.swap(i, n - i - 1)
      return qc

  def iqft_gate(n_qubits):
      qc = QuantumCircuit(n_qubits, name="IQFT")
      swap_qubits(qc, n_qubits)
      for i in reversed(range(n_qubits)):
          for j in reversed(range(i + 1, n_qubits)):
              angle = -np.pi / (2**(j - i))
              qc.cp(angle, j, i)
          qc.h(i)
      return qc
  \<close>
  The register size is a natural number (a negative size is refused by the
  circuit constructor before any gate is built).

  The angle is a float divided by an integer, \<^verbatim>\<open>-np.pi / (2**(j - i))\<close>: the
  division converts the integer to a float first. A float holds the powers of
  two up to \<open>2 ^ 1023\<close>; on \<open>2 ^ 1024\<close> and above the conversion raises
  \<^verbatim>\<open>OverflowError\<close>.
\<close>

definition float_of_pow2 :: "nat \<Rightarrow> error + real" where
  "float_of_pow2 k = (if k < 1024 then Inr (2 ^ k) else Inl OverflowError)"

definition swap_qubits :: "circuit \<Rightarrow> nat \<Rightarrow> error + circuit" where
  "swap_qubits qc n =
     for_each [0..<n div 2] (\<lambda>i c. append_instr c (Swap i (n - i - 1))) qc"

definition iqft_gate :: "nat \<Rightarrow> error + circuit" where
  "iqft_gate n_qubits =
     (case swap_qubits (QuantumCircuit n_qubits 0) n_qubits of
        Inl e \<Rightarrow> Inl e
      | Inr qc \<Rightarrow>
          for_each (rev [0..<n_qubits])
            (\<lambda>i c.
               case for_each (rev [i + 1..<n_qubits])
                      (\<lambda>j c'.
                         case float_of_pow2 (j - i) of
                           Inl e \<Rightarrow> Inl e
                         | Inr d \<Rightarrow> append_instr c' (CP (- pi / d) j i)) c of
                 Inl e \<Rightarrow> Inl e
               | Inr c' \<Rightarrow> append_instr c' (H i))
            qc)"

text \<open>
  The gate sequence as the design states it: the swaps pairing qubit \<open>i\<close> with
  qubit \<open>n - 1 - i\<close>, then for \<open>i\<close> from \<open>n - 1\<close> down to 0 the controlled phases
  with control \<open>j\<close> from \<open>n - 1\<close> down to \<open>i + 1\<close>, target \<open>i\<close> and angle
  \<open>- pi / 2 ^ (j - i)\<close>, followed by the Hadamard gate on \<open>i\<close>.
\<close>

definition iqft_row :: "nat \<Rightarrow> nat \<Rightarrow> instr list" where
  "iqft_row n i = map (\<lambda>j. CP (- pi / 2 ^ (j - i)) j i) (rev [i + 1..<n]) @ [H i]"

definition iqft_data :: "nat \<Rightarrow> instr list" where
  "iqft_data n =
     map (\<lambda>i. Swap i (n - 1 - i)) [0..<n div 2] @ concat (map (iqft_row n) (rev [0..<n]))"

section \<open>Decoding of measurement keys\<close>

text \<open>
  \<^verbatim>\<open>int(s, base)\<close> on a key of the counts dictionary. A key is a string of
  digits; on a string that is empty or holds a character that is no digit of
  the base the conversion raises \<^verbatim>\<open>ValueError\<close>. (Signs, surrounding blanks,
  underscores and a base prefix, which the conversion also reads, never occur
  in a key and are not modelled: the model rejects them.)
\<close>

definition is_digit :: "nat \<Rightarrow> char \<Rightarrow> bool" where
  "is_digit base c \<longleftrightarrow> 48 \<le> (of_char c :: nat) \<and> (of_char c :: nat) < 48 + base"

definition digit_val :: "char \<Rightarrow> int" where
  "digit_val c = int (of_char c) - 48"

definition py_int :: "string \<Rightarrow> nat \<Rightarrow> error + int" where
  "py_int s base =
     (if s \<noteq> [] \<and> list_all (is_digit base) s
      then Inr (foldl (\<lambda>acc c. acc * int base + digit_val c) 0 s)
      else Inl ValueError)"

text \<open>
  The decoding of the counting scan, \<^verbatim>\<open>int(binary_count[::-1], 2)\<close>.
\<close>

definition decode_count :: "string \<Rightarrow> error + int" where
  "decode_count binary_count = py_int (rev binary_count) 2"

text \<open>The character a key holds for a measured bit, and all keys of \<open>n\<close> characters.\<close>

definition bit_char :: "bool \<Rightarrow> char" where
  "bit_char b = (if b then CHR ''1'' else CHR ''0'')"

definition bitstrings :: "nat \<Rightarrow> string list" where
  "bitstrings n = List.n_lists n [CHR ''0'', CHR ''1'']"

section \<open>Execution backend\<close>

text \<open>
  The execution backend (the simulator, its \<^verbatim>\<open>transpile\<close> step and the counts
  it returns) is a library outside the repository. The engines take it as a
  parameter; this section states what a correct backend may return for a
  circuit: the gates have their standard unitary semantics, a circuit is run
  for one shot and the result is one key. The simulator works on amplitudes in
  double precision; the semantics here is the exact one, with complex
  amplitudes.

  A state of \<open>n\<close> qubits gives an amplitude to every assignment of the qubits,
  a list of \<open>n\<close> booleans with the value of qubit \<open>q\<close> at position \<open>q\<close>.
\<close>

type_synonym state = "bool list \<Rightarrow> complex"

definition init_state :: "nat \<Rightarrow> state" where
  "init_state n = (\<lambda>b. if b = replicate n False then 1 else 0)"

fun apply_gate :: "instr \<Rightarrow> state \<Rightarrow> state" where
  "apply_gate (H q) \<psi> =
     (\<lambda>b. (\<psi> (b[q := False]) + (if b ! q then - 1 else 1) * \<psi> (b[q := True])) /
          complex_of_real (sqrt 2))"
| "apply_gate (X q) \<psi> = (\<lambda>b. \<psi> (b[q := \<not> b ! q]))"
| "apply_gate (CX c t) \<psi> = (\<lambda>b. \<psi> (if b ! c then b[t := \<not> b ! t] else b))"
| "apply_gate (CP a c t) \<psi> = (\<lambda>b. (if b ! c \<and> b ! t then cis a else 1) * \<psi> b)"
| "apply_gate (Swap p q) \<psi> = (\<lambda>b. \<psi> (b[p := b ! q, q := b ! p]))"
| "apply_gate Barrier \<psi> = \<psi>"
| "apply_gate (Measure q c) \<psi> = \<psi>"

text \<open>
  A measurement splits a run in two: the part of the state where the qubit
  is 0, with 0 written to the classical bit, and the part where it is 1. A
  run is therefore a list of branches, each a content of the classical
  register with the (unnormalised) state that goes with it; the squared norm
  of a branch's state is the probability of that branch.
\<close>

definition project :: "nat \<Rightarrow> bool \<Rightarrow> state \<Rightarrow> state" where
  "project q v \<psi> = (\<lambda>b. if b ! q = v then \<psi> b else 0)"

type_synonym branch = "bool list \<times> state"

fun step :: "instr \<Rightarrow> branch list \<Rightarrow> branch list" where
  "step (Measure q c) bs =
     concat (map (\<lambda>(k, \<psi>). [(k[c := False], project q False \<psi>),
                             (k[c := True], project q True \<psi>)]) bs)"
| "step g bs = map (\<lambda>(k, \<psi>). (k, apply_gate g \<psi>)) bs"

definition run_circuit :: "circuit \<Rightarrow> branch list" where
  "run_circuit qc =
     foldl (\<lambda>bs g. step g bs)
       [(replicate (num_clbits qc) False, init_state (num_qubits qc))] (data qc)"

definition norm2 :: "nat \<Rightarrow> state \<Rightarrow> real" where
  "norm2 n \<psi> = (\<Sum>b\<leftarrow>List.n_lists n [False, True]. (cmod (\<psi> b))\<^sup>2)"

text \<open>
  The key of a content of the classical register, as the simulator library
  writes it: one character per classical bit, with classical bit 0 as the last
  character. The source is written for this form: its decoding reverses the
  key before reading it in base 2, and its boot check expects the counts 2 and
  3 for two and three ships. (With the bit of qubit 0 as the first character,
  the same decoding would read three ships as 6.)
\<close>

definition key_of :: "bool list \<Rightarrow> string" where
  "key_of k = rev (map bit_char k)"

definition key_prob :: "circuit \<Rightarrow> string \<Rightarrow> real" where
  "key_prob qc key =
     (\<Sum>(k, \<psi>)\<leftarrow>run_circuit qc. if key_of k = key then norm2 (num_qubits qc) \<psi> else 0)"

text \<open>
  The backend as the engines use it: \<^verbatim>\<open>transpile\<close> returns the circuit that is
  run, or fails; one shot of that circuit (\<^verbatim>\<open>simulator.run\<close>, \<^verbatim>\<open>job.result\<close>,
  \<^verbatim>\<open>get_counts\<close> and the first key of the counts) gives one key, or fails. A
  backend is faithful on a circuit when it transpiles and runs it and the key
  it gives is an outcome that the circuit has with a probability above zero.
\<close>

record backend =
  transpile :: "circuit \<Rightarrow> error + circuit"
  run_shot :: "circuit \<Rightarrow> error + string"

definition faithful :: "backend \<Rightarrow> circuit \<Rightarrow> bool" where
  "faithful B qc =
     (case transpile B qc of
        Inl e \<Rightarrow> False
      | Inr transpiled_qc \<Rightarrow>
          (case run_shot B transpiled_qc of
             Inl e \<Rightarrow> False
           | Inr key \<Rightarrow> 0 < key_prob qc key))"

section \<open>Engines\<close>

definition and_then :: "error + 'a \<Rightarrow> ('a \<Rightarrow> error + 'b) \<Rightarrow> error + 'b" where
  "and_then r f = (case r of Inl e \<Rightarrow> Inl e | Inr x \<Rightarrow> f x)"

text \<open>
  \<^verbatim>\<open>
  def run_quantum_sonar_ping(target_is_ship: bool):
      probe_qubit = 0
      target_qubit = 1
      qc = QuantumCircuit(2, 1)
      if target_is_ship:
          qc.x(target_qubit)
      qc.barrier()
      qc.h(probe_qubit)
      qc.h(target_qubit)
      qc.cx(probe_qubit, target_qubit)
      qc.h(target_qubit)
      qc.h(probe_qubit)
      qc.barrier()
      qc.measure(probe_qubit, 0)
      simulator = AerSimulator()
      transpiled_qc = transpile(qc, simulator)
      job = simulator.run(transpiled_qc, shots=1)
      result = job.result()
      counts = result.get_counts(transpiled_qc)
      measurement_outcome = int(list(counts.keys())[0])
      return measurement_outcome, transpiled_qc
  \<close>
\<close>

definition sonar_ping_circuit :: "bool \<Rightarrow> error + circuit" where
  "sonar_ping_circuit target_is_ship =
     (let probe_qubit = 0; target_qubit = 1; qc = QuantumCircuit 2 1 in
      and_then (if target_is_ship then append_instr qc (X target_qubit) else Inr qc) (\<lambda>qc.
      and_then (append_instr qc Barrier) (\<lambda>qc.
      and_then (append_instr qc (H probe_qubit)) (\<lambda>qc.
      and_then (append_instr qc (H target_qubit)) (\<lambda>qc.
      and_then (append_instr qc (CX probe_qubit target_qubit)) (\<lambda>qc.
      and_then (append_instr qc (H target_qubit)) (\<lambda>qc.
      and_then (append_instr qc (H probe_qubit)) (\<lambda>qc.
      and_then (append_instr qc Barrier) (\<lambda>qc.
      append_instr qc (Measure probe_qubit 0))))))))))"

definition run_quantum_sonar_ping :: "backend \<Rightarrow> bool \<Rightarrow> error + int \<times> circuit" where
  "run_quantum_sonar_ping B target_is_ship =
     and_then (sonar_ping_circuit target_is_ship) (\<lambda>qc.
       and_then (transpile B qc) (\<lambda>transpiled_qc.
       and_then (run_shot B transpiled_qc) (\<lambda>key.
       and_then (py_int key 10) (\<lambda>measurement_outcome.
       Inr (measurement_outcome, transpiled_qc)))))"

text \<open>
  \<^verbatim>\<open>
  def run_quantum_counting_scan(targets: list[bool]):
      n_counting_qubits = 3
      n_target_qubits = 4
      counting_register = list(range(n_counting_qubits))
      target_register = list(range(n_counting_qubits, n_counting_qubits + n_target_qubits))
      qc = QuantumCircuit(n_counting_qubits + n_target_qubits, n_counting_qubits)
      ship_indices = [target_register[i] for i, is_ship in enumerate(targets) if is_ship]
      for i in ship_indices:
          qc.x(i)
      qc.h(counting_register)
      base_phase = np.pi / 4
      for c_idx in counting_register:
          power = n_counting_qubits - 1 - c_idx
          angle = (2**power) * base_phase
          for t_idx in ship_indices:
              qc.cp(angle, c_idx, t_idx)
      qc.barrier()
      qc.append(iqft_gate(n_counting_qubits), counting_register)
      qc.barrier()
      qc.measure(counting_register, counting_register)
      simulator = AerSimulator()
      transpiled_qc = transpile(qc, simulator)
      job = simulator.run(transpiled_qc, shots=1)
      result = job.result()
      counts = result.get_counts(transpiled_qc)
      binary_count = list(counts.keys())[0]
      integer_count = int(binary_count[::-1], 2)
      return integer_count, transpiled_qc
  \<close>
  The angle \<^verbatim>\<open>(2**power) * base_phase\<close> multiplies a float by an integer that is
  1, 2 or 4; the conversion of that integer to a float is exact and cannot
  fail.

  The comprehension for \<^verbatim>\<open>ship_indices\<close> reads \<^verbatim>\<open>target_register[i]\<close> only for
  the positions that hold a ship, and raises \<^verbatim>\<open>IndexError\<close> when such a position
  is outside the register.
\<close>

fun select_ships :: "nat list \<Rightarrow> nat \<Rightarrow> bool list \<Rightarrow> error + nat list" where
  "select_ships target_register i [] = Inr []"
| "select_ships target_register i (is_ship # rest) =
     (if is_ship then
        (if i < length target_register
         then and_then (select_ships target_register (i + 1) rest)
                (\<lambda>xs. Inr (target_register ! i # xs))
         else Inl IndexError)
      else select_ships target_register (i + 1) rest)"

definition counting_scan_circuit :: "bool list \<Rightarrow> error + circuit" where
  "counting_scan_circuit targets =
     (let n_counting_qubits = 3;
          n_target_qubits = 4;
          counting_register = [0..<n_counting_qubits];
          target_register = [n_counting_qubits..<n_counting_qubits + n_target_qubits];
          qc = QuantumCircuit (n_counting_qubits + n_target_qubits) n_counting_qubits
      in
      and_then (select_ships target_register 0 targets) (\<lambda>ship_indices.
      and_then (for_each ship_indices (\<lambda>i c. append_instr c (X i)) qc) (\<lambda>qc.
      and_then (for_each counting_register (\<lambda>q c. append_instr c (H q)) qc) (\<lambda>qc.
      let base_phase = pi / 4 in
      and_then (for_each counting_register
                  (\<lambda>c_idx c.
                     let power = n_counting_qubits - 1 - c_idx;
                         angle = 2 ^ power * base_phase
                     in for_each ship_indices (\<lambda>t_idx c'. append_instr c' (CP angle c_idx t_idx)) c)
                  qc) (\<lambda>qc.
      and_then (append_instr qc Barrier) (\<lambda>qc.
      and_then (iqft_gate n_counting_qubits) (\<lambda>sub.
      and_then (append_circuit qc sub counting_register) (\<lambda>qc.
      and_then (append_instr qc Barrier) (\<lambda>qc.
      for_each (zip counting_register counting_register)
        (\<lambda>(q, c) c'. append_instr c' (Measure q c)) qc)))))))))"

definition run_quantum_counting_scan :: "backend \<Rightarrow> bool list \<Rightarrow> error + int \<times> circuit" where
  "run_quantum_counting_scan B targets =
     and_then (counting_scan_circuit targets) (\<lambda>qc.
       and_then (transpile B qc) (\<lambda>transpiled_qc.
       and_then (run_shot B transpiled_qc) (\<lambda>binary_count.
       and_then (decode_count binary_count) (\<lambda>integer_count.
       Inr (integer_count, transpiled_qc)))))"

section \<open>Product states\<close>

text \<open>
  The circuits of both engines keep the register in a product state in which
  every qubit is a basis state or an equal superposition with a relative
  phase. Such a state is described qubit by qubit.
\<close>

datatype qstate = Basis bool | Plus real | Zero

fun amp :: "qstate \<Rightarrow> bool \<Rightarrow> complex" where
  "amp (Basis v) x = (if x = v then 1 else 0)"
| "amp (Plus a) x = (if x then cis a else 1) / complex_of_real (sqrt 2)"
| "amp Zero x = 0"

definition pstate :: "qstate list \<Rightarrow> state" where
  "pstate qs = (\<lambda>b. if length b = length qs then (\<Prod>i<length qs. amp (qs ! i) (b ! i)) else 0)"

fun weight :: "qstate \<Rightarrow> real" where
  "weight Zero = 0"
| "weight s = 1"

text \<open>
  The gates on product states. For each gate a function gives the description
  of the state after the gate, and a predicate says when the description is
  exact: a Hadamard gate on a superposition needs the relative phase \<open>1\<close> or
  \<open>- 1\<close>, a Pauli-X gate a basis state, a controlled phase one of its two qubits
  in a basis state, and a controlled NOT both qubits in a superposition, the
  target with the relative phase \<open>1\<close> or \<open>- 1\<close>.
\<close>

fun hadamard :: "qstate \<Rightarrow> qstate" where
  "hadamard (Basis v) = Plus (if v then pi else 0)"
| "hadamard (Plus a) = Basis (cis a \<noteq> 1)"
| "hadamard Zero = Zero"

fun hadamard_ok :: "qstate \<Rightarrow> bool" where
  "hadamard_ok (Plus a) = (cis a = 1 \<or> cis a = - 1)"
| "hadamard_ok s = True"

fun is_Plus :: "qstate \<Rightarrow> bool" where
  "is_Plus (Plus a) = True"
| "is_Plus s = False"

fun flip :: "qstate \<Rightarrow> qstate" where
  "flip (Basis v) = Basis (\<not> v)"
| "flip s = s"

fun kick :: "real \<Rightarrow> qstate \<Rightarrow> qstate" where
  "kick a (Plus p) = Plus (p + a)"
| "kick a s = s"

fun restrict :: "bool \<Rightarrow> qstate \<Rightarrow> qstate" where
  "restrict v (Basis w) = (if w = v then Basis w else Zero)"
| "restrict v s = s"

fun sym_gate :: "instr \<Rightarrow> qstate list \<Rightarrow> qstate list" where
  "sym_gate (H q) qs = qs[q := hadamard (qs ! q)]"
| "sym_gate (X q) qs = qs[q := flip (qs ! q)]"
| "sym_gate (CP a c t) qs =
     (case qs ! t of
        Basis v \<Rightarrow> if v then qs[c := kick a (qs ! c)] else qs
      | _ \<Rightarrow> (case qs ! c of Basis v \<Rightarrow> if v then qs[t := kick a (qs ! t)] else qs | _ \<Rightarrow> qs))"
| "sym_gate (CX c t) qs =
     (case (qs ! c, qs ! t) of
        (Plus p, Plus a) \<Rightarrow> qs[c := Plus (p + (if cis a = 1 then 0 else pi))]
      | _ \<Rightarrow> qs)"
| "sym_gate (Swap p q) qs = qs[p := qs ! q, q := qs ! p]"
| "sym_gate Barrier qs = qs"
| "sym_gate (Measure q c) qs = qs"

fun gate_ok :: "instr \<Rightarrow> qstate list \<Rightarrow> bool" where
  "gate_ok (H q) qs = (q < length qs \<and> hadamard_ok (qs ! q))"
| "gate_ok (X q) qs = (q < length qs \<and> \<not> is_Plus (qs ! q))"
| "gate_ok (CP a c t) qs =
     (c < length qs \<and> t < length qs \<and> c \<noteq> t \<and>
      (case qs ! t of
         Basis v \<Rightarrow> \<not> (v \<and> qs ! c = Basis True)
       | _ \<Rightarrow> (case qs ! c of Basis v \<Rightarrow> \<not> (v \<and> qs ! t = Basis True) | _ \<Rightarrow> False)))"
| "gate_ok (CX c t) qs =
     (c < length qs \<and> t < length qs \<and> c \<noteq> t \<and>
      (case (qs ! c, qs ! t) of (Plus p, Plus a) \<Rightarrow> cis a = 1 \<or> cis a = - 1 | _ \<Rightarrow> False))"
| "gate_ok (Swap p q) qs = (p < length qs \<and> q < length qs)"
| "gate_ok Barrier qs = True"
| "gate_ok (Measure q c) qs = True"

text \<open>
  A run on product states: a branch is a content of the classical register
  with the description of the state, and a measurement of a qubit in a basis
  state keeps both branches, one of them with the weight 0.
\<close>

type_synonym sbranch = "bool list \<times> qstate list"

fun sym_step :: "instr \<Rightarrow> sbranch list \<Rightarrow> sbranch list" where
  "sym_step (Measure q c) bs =
     concat (map (\<lambda>(k, qs). [(k[c := False], qs[q := restrict False (qs ! q)]),
                              (k[c := True], qs[q := restrict True (qs ! q)])]) bs)"
| "sym_step g bs = map (\<lambda>(k, qs). (k, sym_gate g qs)) bs"

fun step_ok :: "instr \<Rightarrow> sbranch list \<Rightarrow> bool" where
  "step_ok (Measure q c) bs = list_all (\<lambda>(k, qs). q < length qs \<and> \<not> is_Plus (qs ! q)) bs"
| "step_ok g bs = list_all (\<lambda>(k, qs). gate_ok g qs) bs"

fun sym_run :: "instr list \<Rightarrow> sbranch list \<Rightarrow> sbranch list" where
  "sym_run [] bs = bs"
| "sym_run (g # gs) bs = sym_run gs (sym_step g bs)"

fun run_ok :: "instr list \<Rightarrow> sbranch list \<Rightarrow> bool" where
  "run_ok [] bs = True"
| "run_ok (g # gs) bs = (step_ok g bs \<and> run_ok gs (sym_step g bs))"

definition conc :: "sbranch \<Rightarrow> branch" where
  "conc = (\<lambda>(k, qs). (k, pstate qs))"

section \<open>Circuits of the engines\<close>

text \<open>
  The instruction lists that the two engines build, written out: the sonar
  ping for a target, and the counting scan for the list of the target qubits
  that hold a ship. \<open>count_key m\<close> is the key whose decoding is \<open>m\<close>, for \<open>m\<close> up
  to 7.
\<close>

definition ping_data :: "bool \<Rightarrow> instr list" where
  "ping_data target_is_ship =
     (if target_is_ship then [X 1] else []) @
     [Barrier, H 0, H 1, CX 0 1, H 1, H 0, Barrier, Measure 0 0]"

definition scan_data :: "nat list \<Rightarrow> instr list" where
  "scan_data ship_indices =
     map X ship_indices @ [H 0, H 1, H 2] @
     concat (map (\<lambda>c. map (\<lambda>t. CP (2 ^ (2 - c) * (pi / 4)) c t) ship_indices) [0, 1, 2]) @
     [Barrier] @ iqft_data 3 @ [Barrier, Measure 0 0, Measure 1 1, Measure 2 2]"


section \<open>Two backends\<close>

text \<open>
  An ideal simulator: it runs the circuit as it is given, and the key of a run
  is the first key, in the order of \<open>bitstrings\<close>, that the circuit gives with a
  probability above zero.
\<close>

definition ideal_backend :: backend where
  "ideal_backend =
     \<lparr>transpile = (\<lambda>qc. Inr qc),
      run_shot = (\<lambda>qc. case filter (\<lambda>key. 0 < key_prob qc key) (bitstrings (num_clbits qc)) of
                          [] \<Rightarrow> Inl ExecutionFailure
                        | key # rest \<Rightarrow> Inr key)\<rparr>"

text \<open>
  A backend whose transpilation removes the barriers and whose runs all give
  one fixed key, whatever the circuit is.
\<close>

definition fixed_backend :: "string \<Rightarrow> backend" where
  "fixed_backend key =
     \<lparr>transpile = (\<lambda>qc. Inr (qc\<lparr>data := filter (\<lambda>g. \<not> is_Barrier g) (data qc)\<rparr>)),
      run_shot = (\<lambda>qc. Inr key)\<rparr>"

section \<open>A caller of the engines\<close>


section \<open>The builder on a store of circuit objects\<close>

text \<open>
  A circuit is an object that its methods change in place: \<^verbatim>\<open>iqft_gate\<close> creates
  one, passes it to \<^verbatim>\<open>swap_qubits\<close>, which appends to the object it is given, and
  goes on appending to the same object. The store is the list of the circuit
  objects that exist, an object's address is its position; \<open>alloc\<close> adds a new
  object at the end and \<open>mutate\<close> runs appending code on the object at an
  address. A call of the builder takes the store and returns the address of
  its result with the new store.
\<close>

type_synonym heap = "circuit list"

definition alloc :: "circuit \<Rightarrow> heap \<Rightarrow> nat \<times> heap" where
  "alloc qc h = (length h, h @ [qc])"

definition mutate :: "nat \<Rightarrow> (circuit \<Rightarrow> error + circuit) \<Rightarrow> heap \<Rightarrow> error + heap" where
  "mutate a f h = (case f (h ! a) of Inl e \<Rightarrow> Inl e | Inr qc \<Rightarrow> Inr (h[a := qc]))"

definition iqft_gate_call :: "nat \<Rightarrow> heap \<Rightarrow> error + nat \<times> heap" where
  "iqft_gate_call n_qubits h =
     (case alloc (QuantumCircuit n_qubits 0) h of (qc, h) \<Rightarrow>
      and_then (mutate qc (\<lambda>c. swap_qubits c n_qubits) h) (\<lambda>h.
      and_then (mutate qc
                 (for_each (rev [0..<n_qubits])
                    (\<lambda>i c.
                       case for_each (rev [i + 1..<n_qubits])
                              (\<lambda>j c'.
                                 case float_of_pow2 (j - i) of
                                   Inl e \<Rightarrow> Inl e
                                 | Inr d \<Rightarrow> append_instr c' (CP (- pi / d) j i)) c of
                         Inl e \<Rightarrow> Inl e
                       | Inr c' \<Rightarrow> append_instr c' (H i)))
                 h) (\<lambda>h.
      Inr (qc, h))))"


section \<open>Properties of the builder\<close>

lemma instr_ok_data_update [simp]: "instr_ok (qc\<lparr>data := d\<rparr>) = instr_ok qc"
  by (rule ext) (simp add: instr_ok_def)

lemma for_each_append_instr:
  assumes "list_all (instr_ok qc) (map f xs)"
  shows "for_each xs (\<lambda>x c. append_instr c (f x)) qc = Inr (qc\<lparr>data := data qc @ map f xs\<rparr>)"
  using assms
proof (induction xs arbitrary: qc)
  case Nil
  then show ?case by simp
next
  case (Cons x xs)
  have ok: "list_all (instr_ok (qc\<lparr>data := data qc @ [f x]\<rparr>)) (map f xs)"
    using Cons.prems by simp
  show ?case
    using Cons.prems Cons.IH [OF ok] by (simp add: append_instr_def)
qed

lemma for_each_rows:
  assumes "\<And>x c. x \<in> set xs \<Longrightarrow> num_qubits c = num_qubits qc \<Longrightarrow> num_clbits c = num_clbits qc \<Longrightarrow>
             body x c = Inr (c\<lparr>data := data c @ row x\<rparr>)"
  shows "for_each xs body qc = Inr (qc\<lparr>data := data qc @ concat (map row xs)\<rparr>)"
  using assms
proof (induction xs arbitrary: qc)
  case Nil
  then show ?case by simp
next
  case (Cons x xs)
  have step: "body x qc = Inr (qc\<lparr>data := data qc @ row x\<rparr>)"
    using Cons.prems by simp
  have "for_each xs body (qc\<lparr>data := data qc @ row x\<rparr>) =
          Inr (qc\<lparr>data := data qc @ row x, data := data (qc\<lparr>data := data qc @ row x\<rparr>) @ concat (map row xs)\<rparr>)"
    by (rule Cons.IH) (simp add: Cons.prems)
  with step show ?case by simp
qed

lemma swap_qubits_data:
  assumes "n \<le> num_qubits qc"
  shows "swap_qubits qc n = Inr (qc\<lparr>data := data qc @ map (\<lambda>i. Swap i (n - 1 - i)) [0..<n div 2]\<rparr>)"
proof -
  have "list_all (instr_ok qc) (map (\<lambda>i. Swap i (n - i - 1)) [0..<n div 2])"
    using assms by (auto simp: list_all_iff instr_ok_def)
  then show ?thesis
    unfolding swap_qubits_def by (simp add: for_each_append_instr)
qed

lemma for_each_cong:
  "(\<And>x c. x \<in> set xs \<Longrightarrow> f x c = g x c) \<Longrightarrow> for_each xs f qc = for_each xs g qc"
  by (induction xs arbitrary: qc) (simp_all split: sum.splits)

lemma for_each_append:
  "for_each (xs @ ys) body qc =
     (case for_each xs body qc of Inl e \<Rightarrow> Inl e | Inr qc' \<Rightarrow> for_each ys body qc')"
  by (induction xs arbitrary: qc) (simp_all split: sum.splits)

lemma iqft_row_step:
  assumes "i < n" "num_qubits c = n" "n \<le> i + 1024"
  shows "(case for_each (rev [i + 1..<n])
                 (\<lambda>j c'. case float_of_pow2 (j - i) of
                            Inl e \<Rightarrow> Inl e
                          | Inr d \<Rightarrow> append_instr c' (CP (- pi / d) j i)) c of
            Inl e \<Rightarrow> Inl e | Inr c' \<Rightarrow> append_instr c' (H i)) =
         Inr (c\<lparr>data := data c @ iqft_row n i\<rparr>)"
proof -
  have "for_each (rev [i + 1..<n])
          (\<lambda>j c'. case float_of_pow2 (j - i) of
                     Inl e \<Rightarrow> Inl e
                   | Inr d \<Rightarrow> append_instr c' (CP (- pi / d) j i)) c =
        for_each (rev [i + 1..<n]) (\<lambda>j c'. append_instr c' (CP (- pi / 2 ^ (j - i)) j i)) c"
  proof (rule for_each_cong)
    fix j c'
    assume "j \<in> set (rev [i + 1..<n])"
    with assms have "j - i < 1024"
      by auto
    then show "(case float_of_pow2 (j - i) of
                  Inl e \<Rightarrow> Inl e
                | Inr d \<Rightarrow> append_instr c' (CP (- pi / d) j i)) =
               append_instr c' (CP (- pi / 2 ^ (j - i)) j i)"
      by (simp add: float_of_pow2_def)
  qed
  moreover have "list_all (instr_ok c) (map (\<lambda>j. CP (- pi / 2 ^ (j - i)) j i) (rev [i + 1..<n]))"
    using assms by (auto simp: list_all_iff instr_ok_def)
  then have "for_each (rev [i + 1..<n]) (\<lambda>j c'. append_instr c' (CP (- pi / 2 ^ (j - i)) j i)) c =
      Inr (c\<lparr>data := data c @ map (\<lambda>j. CP (- pi / 2 ^ (j - i)) j i) (rev [i + 1..<n])\<rparr>)"
    by (rule for_each_append_instr)
  ultimately show ?thesis
    using assms by (simp add: append_instr_def instr_ok_def iqft_row_def)
qed

lemma iqft_gate_data:
  assumes "n \<le> 1024"
  shows "iqft_gate n = Inr \<lparr>num_qubits = n, num_clbits = 0, data = iqft_data n\<rparr>"
proof -
  have sw: "swap_qubits (QuantumCircuit n 0) n =
      Inr \<lparr>num_qubits = n, num_clbits = 0, data = map (\<lambda>i. Swap i (n - 1 - i)) [0..<n div 2]\<rparr>"
    by (simp add: swap_qubits_data QuantumCircuit_def)
  have "for_each (rev [0..<n])
          (\<lambda>i c.
             case for_each (rev [i + 1..<n])
                    (\<lambda>j c'. case float_of_pow2 (j - i) of
                               Inl e \<Rightarrow> Inl e
                             | Inr d \<Rightarrow> append_instr c' (CP (- pi / d) j i)) c of
               Inl e \<Rightarrow> Inl e
             | Inr c' \<Rightarrow> append_instr c' (H i))
          \<lparr>num_qubits = n, num_clbits = 0, data = map (\<lambda>i. Swap i (n - 1 - i)) [0..<n div 2]\<rparr> =
        Inr (\<lparr>num_qubits = n, num_clbits = 0, data = map (\<lambda>i. Swap i (n - 1 - i)) [0..<n div 2]\<rparr>
          \<lparr>data := data \<lparr>num_qubits = n, num_clbits = 0, data = map (\<lambda>i. Swap i (n - 1 - i)) [0..<n div 2]\<rparr>
             @ concat (map (iqft_row n) (rev [0..<n]))\<rparr>)"
    using assms by (intro for_each_rows iqft_row_step) simp_all
  then show ?thesis
    unfolding iqft_gate_def sw by (simp add: iqft_data_def)
qed

lemma iqft_gate_overflow:
  assumes "1025 \<le> n"
  shows "iqft_gate n = Inl OverflowError"
proof -
  define k where "k = n - 1025"
  define body where "body =
    (\<lambda>i c. case for_each (rev [i + 1..<n])
                  (\<lambda>j c'. case float_of_pow2 (j - i) of
                             Inl e \<Rightarrow> Inl e
                           | Inr d \<Rightarrow> append_instr c' (CP (- pi / d) j i)) c of
             Inl e \<Rightarrow> Inl e
           | Inr c' \<Rightarrow> append_instr c' (H i))"
  define q0 :: circuit where
    "q0 = \<lparr>num_qubits = n, num_clbits = 0, data = map (\<lambda>i. Swap i (n - 1 - i)) [0..<n div 2]\<rparr>"
  have k: "k + 1025 = n"
    using assms by (simp add: k_def)
  have sw: "swap_qubits (QuantumCircuit n 0) n = Inr q0"
    by (simp add: swap_qubits_data QuantumCircuit_def q0_def)
  have "[0..<n] = [0..<k] @ k # [Suc k..<n]"
    using k by (metis add_lessD1 less_add_Suc1 numeral_eq_Suc upt_conv_Cons upt_add_eq_append
        zero_le add.right_neutral add_0 le_add1 le_add_diff_inverse less_add_same_cancel1
        zero_less_numeral)
  then have split: "rev [0..<n] = rev [Suc k..<n] @ k # rev [0..<k]"
    by simp
  have upper: "for_each (rev [Suc k..<n]) body q0 =
      Inr (q0\<lparr>data := data q0 @ concat (map (iqft_row n) (rev [Suc k..<n]))\<rparr>)"
  proof (rule for_each_rows)
    fix x and c :: circuit
    assume "x \<in> set (rev [Suc k..<n])" "num_qubits c = num_qubits q0" "num_clbits c = num_clbits q0"
    then have "x < n" "num_qubits c = n" "n \<le> x + 1024"
      using k by (auto simp: q0_def)
    then show "body x c = Inr (c\<lparr>data := data c @ iqft_row n x\<rparr>)"
      unfolding body_def by (rule iqft_row_step)
  qed
  have "rev [k + 1..<n] = (n - 1) # rev [k + 1..<n - 1]"
  proof -
    have "[k + 1..<n] = [k + 1..<Suc (n - 1)]"
      using k by simp
    also have "\<dots> = [k + 1..<n - 1] @ [n - 1]"
      using k by (intro upt_Suc_append) simp
    finally show ?thesis
      by simp
  qed
  moreover have "float_of_pow2 (n - 1 - k) = Inl OverflowError"
    using k by (simp add: float_of_pow2_def)
  ultimately have row: "body k c = Inl OverflowError" for c
    unfolding body_def by simp
  have "for_each (rev [0..<n]) body q0 = Inl OverflowError"
    unfolding split for_each_append upper by (simp add: row)
  then show ?thesis
    unfolding iqft_gate_def sw body_def by simp
qed

lemma length_filter_concat_map:
  "length (filter P (concat (map f xs))) = sum_list (map (\<lambda>x. length (filter P (f x))) xs)"
  by (induction xs) simp_all

lemma sum_list_descending: "sum_list (map (\<lambda>i. n - Suc i) [0..<n]) = n * (n - 1) div 2"
proof -
  have "sum_list (map (\<lambda>i. n - Suc i) [0..<n]) = (\<Sum>i<n. n - Suc i)"
    by (simp add: interv_sum_list_conv_sum_set_nat atLeast0LessThan)
  also have "\<dots> = (\<Sum>i<n. i)"
    by (rule sum.nat_diff_reindex)
  also have "\<dots> = n * (n - 1) div 2"
    using Sum_Ico_nat [of 0 n] by (simp add: atLeast0LessThan)
  finally show ?thesis .
qed

lemma iqft_row_counts:
  "length (filter is_Swap (iqft_row n i)) = 0"
  "length (filter is_CP (iqft_row n i)) = n - Suc i"
  "length (filter is_H (iqft_row n i)) = 1"
  "list_all (\<lambda>g. is_Swap g \<or> is_CP g \<or> is_H g) (iqft_row n i)"
  by (simp_all add: iqft_row_def filter_map comp_def list_all_iff)

lemma iqft_data_counts:
  "length (filter is_Swap (iqft_data n)) = n div 2"
  "length (filter is_CP (iqft_data n)) = n * (n - 1) div 2"
  "length (filter is_H (iqft_data n)) = n"
  "list_all (\<lambda>g. is_Swap g \<or> is_CP g \<or> is_H g) (iqft_data n)"
proof -
  show "length (filter is_Swap (iqft_data n)) = n div 2"
    by (simp add: iqft_data_def length_filter_concat_map iqft_row_counts filter_map comp_def)
  have "length (filter is_CP (iqft_data n)) = sum_list (map (\<lambda>i. n - Suc i) (rev [0..<n]))"
    by (simp add: iqft_data_def length_filter_concat_map iqft_row_counts filter_map comp_def)
  also have "\<dots> = sum_list (map (\<lambda>i. n - Suc i) [0..<n])"
    by (simp add: rev_map [symmetric])
  finally show "length (filter is_CP (iqft_data n)) = n * (n - 1) div 2"
    by (simp add: sum_list_descending)
  show "length (filter is_H (iqft_data n)) = n"
    by (simp add: iqft_data_def length_filter_concat_map iqft_row_counts filter_map comp_def
        sum_list_triv)
  show "list_all (\<lambda>g. is_Swap g \<or> is_CP g \<or> is_H g) (iqft_data n)"
    using iqft_row_counts(4) by (auto simp: iqft_data_def list_all_iff)
qed

lemma iqft_data_3:
  "iqft_data 3 =
     [Swap 0 2, H 2, CP (- pi / 2) 2 1, H 1, CP (- pi / 4) 2 0, CP (- pi / 2) 1 0, H 0]"
proof -
  have d: "(3::nat) div 2 = 1" by simp
  have u1: "[0..<1::nat] = [0]" by simp
  have u3: "[0..<3::nat] = [0, 1, 2]" by (simp add: upt_rec)
  have r2: "[2 + 1..<3::nat] = []" by simp
  have r1: "[1 + 1..<3::nat] = [2]" by (simp add: upt_rec)
  have r0: "[0 + 1..<3::nat] = [1, 2]" "[1..<3::nat] = [1, 2]" by (simp_all add: upt_rec)
  show ?thesis
    unfolding iqft_data_def d u1 u3 by (simp add: iqft_row_def r2 r1 r0 del: One_nat_def)
qed

text \<open>
  The builder beyond 1024 qubits: the first angle it computes is \<open>- pi\<close> over
  \<open>2 ^ 1024\<close>, the conversion of the divisor overflows, and no circuit is returned.
\<close>

theorem iqft_gate_overflow_1025: "iqft_gate 1025 = Inl OverflowError"
  by (rule iqft_gate_overflow) simp

theorem iqft_gate_no_circuit_1025: "isl (iqft_gate 1025) \<and> \<not> isl (iqft_gate 1024)"
  by (simp add: iqft_gate_overflow iqft_gate_data)

text \<open>
  C4. For every \<open>n\<close> from 1 to 1024 the builder succeeds and its instructions are, in this
  order: the swaps of qubit \<open>i\<close> with qubit \<open>n - 1 - i\<close> for \<open>i\<close> in \<open>[0, n div 2)\<close>, and
  only then, for \<open>i\<close> from \<open>n - 1\<close> down to 0, the controlled phases with control
  \<open>j\<close> from \<open>n - 1\<close> down to \<open>i + 1\<close>, target \<open>i\<close> and angle \<open>- pi / 2 ^ (j - i)\<close>,
  each group followed by the Hadamard gate on \<open>i\<close>. The circuit has no classical
  bit and no measurement.
\<close>

theorem iqft_gate_order:
  assumes "1 \<le> n" and "n \<le> 1024"
  shows "\<exists>qc. iqft_gate n = Inr qc \<and> num_qubits qc = n \<and> num_clbits qc = 0 \<and>
      data qc =
        map (\<lambda>i. Swap i (n - 1 - i)) [0..<n div 2] @
        concat (map (\<lambda>i. map (\<lambda>j. CP (- pi / 2 ^ (j - i)) j i) (rev [i + 1..<n]) @ [H i])
                  (rev [0..<n])) \<and>
      list_all (\<lambda>g. \<not> is_Measure g) (data qc)"
proof -
  have "iqft_data n =
      map (\<lambda>i. Swap i (n - 1 - i)) [0..<n div 2] @
      concat (map (\<lambda>i. map (\<lambda>j. CP (- pi / 2 ^ (j - i)) j i) (rev [i + 1..<n]) @ [H i])
                (rev [0..<n]))"
    by (simp only: iqft_data_def iqft_row_def [abs_def])
  moreover have "list_all (\<lambda>g. \<not> is_Measure g) (iqft_data n)"
    by (auto simp: iqft_data_def iqft_row_def list_all_iff)
  ultimately show ?thesis
    using assms by (simp add: iqft_gate_data)
qed

theorem iqft_gate_order_witness:
  "(1::nat) \<le> 3 \<and> (3::nat) \<le> 1024 \<and>
   (\<exists>qc. iqft_gate 3 = Inr qc \<and> num_qubits qc = 3 \<and> num_clbits qc = 0 \<and>
      data qc = [Swap 0 2, H 2, CP (- pi / 2) 2 1, H 1, CP (- pi / 4) 2 0,
                 CP (- pi / 2) 1 0, H 0])"
proof -
  have h: "(1::nat) \<le> 3" by simp
  have e: "iqft_data 3 =
      map (\<lambda>i. Swap i (3 - 1 - i)) [0..<3 div 2] @
      concat (map (\<lambda>i. map (\<lambda>j. CP (- pi / 2 ^ (j - i)) j i) (rev [i + 1..<3]) @ [H i])
                (rev [0..<3]))"
    by (simp only: iqft_data_def iqft_row_def [abs_def])
  have h': "(3::nat) \<le> 1024" by simp
  from iqft_gate_order [OF h h'] obtain qc where qc: "iqft_gate 3 = Inr qc"
    "num_qubits qc = 3" "num_clbits qc = 0"
    and d: "data qc =
      map (\<lambda>i. Swap i (3 - 1 - i)) [0..<3 div 2] @
      concat (map (\<lambda>i. map (\<lambda>j. CP (- pi / 2 ^ (j - i)) j i) (rev [i + 1..<3]) @ [H i])
                (rev [0..<3]))"
    by blast
  from d have "data qc = iqft_data 3"
    by (simp only: e)
  with qc h show ?thesis
    by (simp add: iqft_data_3)
qed

text \<open>
  C10. For every \<open>n\<close> from 1 to 1024 the circuit of the builder holds \<open>n div 2\<close> swaps,
  \<open>n * (n - 1) div 2\<close> controlled phases and \<open>n\<close> Hadamard gates, and nothing else;
  for \<open>n = 1\<close> it is the single Hadamard gate on qubit 0.
\<close>

theorem iqft_gate_counts:
  assumes "1 \<le> n" and "n \<le> 1024"
  shows "(\<exists>qc. iqft_gate n = Inr qc \<and>
            length (filter is_Swap (data qc)) = n div 2 \<and>
            length (filter is_CP (data qc)) = n * (n - 1) div 2 \<and>
            length (filter is_H (data qc)) = n \<and>
            list_all (\<lambda>g. is_Swap g \<or> is_CP g \<or> is_H g) (data qc)) \<and>
         iqft_gate 1 = Inr \<lparr>num_qubits = 1, num_clbits = 0, data = [H 0]\<rparr>"
proof
  show "\<exists>qc. iqft_gate n = Inr qc \<and>
            length (filter is_Swap (data qc)) = n div 2 \<and>
            length (filter is_CP (data qc)) = n * (n - 1) div 2 \<and>
            length (filter is_H (data qc)) = n \<and>
            list_all (\<lambda>g. is_Swap g \<or> is_CP g \<or> is_H g) (data qc)"
    using assms by (simp add: iqft_gate_data iqft_data_counts)
  have "iqft_data 1 = [H 0]"
    by (simp add: iqft_data_def iqft_row_def)
  then show "iqft_gate 1 = Inr \<lparr>num_qubits = 1, num_clbits = 0, data = [H 0]\<rparr>"
    by (simp add: iqft_gate_data)
qed

theorem iqft_gate_counts_witness:
  "(1::nat) \<le> 3 \<and> (3::nat) \<le> 1024 \<and>
   (\<exists>qc. iqft_gate 3 = Inr qc \<and> length (filter is_Swap (data qc)) = 1 \<and>
      length (filter is_CP (data qc)) = 3 \<and> length (filter is_H (data qc)) = 3 \<and>
      length (data qc) = 7)"
proof -
  have h: "(1::nat) \<le> 3" by simp
  have h': "(3::nat) \<le> 1024" by simp
  from iqft_gate_counts [OF h h'] obtain qc where qc: "iqft_gate 3 = Inr qc"
    and c: "length (filter is_Swap (data qc)) = 3 div 2"
      "length (filter is_CP (data qc)) = 3 * (3 - 1) div 2"
      "length (filter is_H (data qc)) = 3"
    by blast
  have "data qc = iqft_data 3"
    using qc by (auto simp: iqft_gate_data)
  then have "length (data qc) = 7"
    by (simp add: iqft_data_3)
  with qc c show ?thesis
    by simp
qed

section \<open>Properties of the decoding\<close>

lemma bitstrings_3:
  "bitstrings 3 = [''000'', ''100'', ''010'', ''110'', ''001'', ''101'', ''011'', ''111'']"
  by (simp add: bitstrings_def eval_nat_numeral)

lemma decode_count_bitstrings_3:
  "map decode_count (bitstrings 3) = map Inr [0, 1, 2, 3, 4, 5, 6, 7]"
  by (simp add: bitstrings_3 decode_count_def py_int_def is_digit_def digit_val_def)

section \<open>Soundness of the product states\<close>

lemma pstate_length: "length b \<noteq> length qs \<Longrightarrow> pstate qs b = 0"
  by (simp add: pstate_def)

lemma pstate_split:
  assumes "q < length qs" "length b = length qs"
  shows "pstate qs b = amp (qs ! q) (b ! q) * (\<Prod>i\<in>{..<length qs} - {q}. amp (qs ! i) (b ! i))"
  using assms by (simp add: pstate_def prod.remove [of _ q])

lemma pstate_upd_state:
  assumes "q < length qs" "length b = length qs"
  shows "pstate (qs[q := s]) b = amp s (b ! q) * (\<Prod>i\<in>{..<length qs} - {q}. amp (qs ! i) (b ! i))"
proof -
  have "pstate (qs[q := s]) b =
      amp ((qs[q := s]) ! q) (b ! q) * (\<Prod>i\<in>{..<length (qs[q := s])} - {q}. amp ((qs[q := s]) ! i) (b ! i))"
    by (rule pstate_split) (use assms in simp_all)
  also have "(\<Prod>i\<in>{..<length (qs[q := s])} - {q}. amp ((qs[q := s]) ! i) (b ! i)) =
      (\<Prod>i\<in>{..<length qs} - {q}. amp (qs ! i) (b ! i))"
    by (rule prod.cong) auto
  finally show ?thesis using assms by simp
qed

lemma pstate_upd_arg:
  assumes "q < length qs" "length b = length qs"
  shows "pstate qs (b[q := x]) = amp (qs ! q) x * (\<Prod>i\<in>{..<length qs} - {q}. amp (qs ! i) (b ! i))"
proof -
  have "pstate qs (b[q := x]) =
      amp (qs ! q) ((b[q := x]) ! q) * (\<Prod>i\<in>{..<length qs} - {q}. amp (qs ! i) ((b[q := x]) ! i))"
    by (rule pstate_split) (use assms in simp_all)
  also have "(\<Prod>i\<in>{..<length qs} - {q}. amp (qs ! i) ((b[q := x]) ! i)) =
      (\<Prod>i\<in>{..<length qs} - {q}. amp (qs ! i) (b ! i))"
    by (rule prod.cong) auto
  finally show ?thesis using assms by simp
qed

lemma sqrt2_sq: "complex_of_real (sqrt 2) * complex_of_real (sqrt 2) = 2"
  by (metis of_real_mult of_real_numeral real_sqrt_mult_self abs_numeral)

lemma hadamard_amp:
  assumes "hadamard_ok s"
  shows "(amp s False + (if x then - 1 else 1) * amp s True) / complex_of_real (sqrt 2) =
    amp (hadamard s) x"
proof (cases s)
  case (Basis v)
  then show ?thesis using assms by (cases v; cases x) auto
next
  case (Plus a)
  then show ?thesis using assms sqrt2_sq
    by (cases x) (auto split: if_splits simp: field_simps)
next
  case Zero
  then show ?thesis using assms by simp
qed

lemma apply_H:
  assumes "q < length qs" "hadamard_ok (qs ! q)"
  shows "apply_gate (H q) (pstate qs) = pstate (qs[q := hadamard (qs ! q)])"
proof (rule ext)
  fix b
  show "apply_gate (H q) (pstate qs) b = pstate (qs[q := hadamard (qs ! q)]) b"
  proof (cases "length b = length qs")
    case True
    define R where "R = (\<Prod>i\<in>{..<length qs} - {q}. amp (qs ! i) (b ! i))"
    have "apply_gate (H q) (pstate qs) b =
        (amp (qs ! q) False * R + (if b ! q then - 1 else 1) * (amp (qs ! q) True * R)) /
          complex_of_real (sqrt 2)"
      by (simp add: pstate_upd_arg [OF assms(1) True] R_def)
    also have "\<dots> =
        (amp (qs ! q) False + (if b ! q then - 1 else 1) * amp (qs ! q) True) /
          complex_of_real (sqrt 2) * R"
      by (simp add: algebra_simps add_divide_distrib)
    also have "\<dots> = amp (hadamard (qs ! q)) (b ! q) * R"
      by (simp only: hadamard_amp [OF assms(2)])
    finally show ?thesis
      by (simp add: pstate_upd_state [OF assms(1) True] R_def)
  next
    case False
    then show ?thesis by (simp add: pstate_length)
  qed
qed

lemma flip_amp: "\<not> is_Plus s \<Longrightarrow> amp s (\<not> x) = amp (flip s) x"
  by (cases s) auto

lemma apply_X:
  assumes "q < length qs" "\<not> is_Plus (qs ! q)"
  shows "apply_gate (X q) (pstate qs) = pstate (qs[q := flip (qs ! q)])"
proof (rule ext)
  fix b
  have a: "amp (qs ! q) (\<not> x) = amp (flip (qs ! q)) x" for x
    using assms(2) by (rule flip_amp)
  show "apply_gate (X q) (pstate qs) b = pstate (qs[q := flip (qs ! q)]) b"
  proof (cases "length b = length qs")
    case True
    then show ?thesis
      by (simp add: pstate_upd_arg [OF assms(1) True] pstate_upd_state [OF assms(1) True] a)
  next
    case False
    then show ?thesis by (simp add: pstate_length)
  qed
qed

lemma kick_amp:
  assumes "s \<noteq> Basis True"
  shows "(if x then cis a else 1) * amp s x = amp (kick a s) x"
  using assms by (cases s) (auto split: if_splits simp: cis_mult ac_simps)

lemma phase_on_qubit:
  assumes "r < length qs" "\<And>x. (if x then z else 1) * amp (qs ! r) x = amp s' x"
  shows "(\<lambda>b. (if b ! r then z else 1) * pstate qs b) = pstate (qs[r := s'])"
proof (rule ext)
  fix b
  show "(if b ! r then z else 1) * pstate qs b = pstate (qs[r := s']) b"
  proof (cases "length b = length qs")
    case True
    have "(if b ! r then z else 1) * pstate qs b =
        ((if b ! r then z else 1) * amp (qs ! r) (b ! r)) *
          (\<Prod>i\<in>{..<length qs} - {r}. amp (qs ! i) (b ! i))"
      by (simp only: pstate_split [OF assms(1) True] mult.assoc)
    also have "\<dots> = pstate (qs[r := s']) b"
      by (simp only: assms(2) pstate_upd_state [OF assms(1) True])
    finally show ?thesis .
  next
    case False
    then show ?thesis by (simp add: pstate_length)
  qed
qed

lemma pstate_basis_other:
  assumes "p < length qs" "qs ! p = Basis v" "b ! p \<noteq> v"
  shows "pstate qs b = 0"
proof (cases "length b = length qs")
  case True
  show ?thesis
    using assms by (simp add: pstate_split [OF assms(1) True])
next
  case False
  then show ?thesis by (simp add: pstate_length)
qed

lemma pstate_zero:
  assumes "p < length qs" "qs ! p = Zero"
  shows "pstate qs b = 0"
proof (cases "length b = length qs")
  case True
  show ?thesis
    using assms by (simp add: pstate_split [OF assms(1) True])
next
  case False
  then show ?thesis by (simp add: pstate_length)
qed

lemma controlled_phase_basis:
  assumes "p < length qs" "r < length qs" "p \<noteq> r" "qs ! p = Basis v"
    and "v \<longrightarrow> qs ! r \<noteq> Basis True"
  shows "(\<lambda>b. (if b ! p \<and> b ! r then cis a else 1) * pstate qs b) =
    pstate (if v then qs[r := kick a (qs ! r)] else qs)"
proof -
  have "(\<lambda>b. (if b ! p \<and> b ! r then cis a else 1) * pstate qs b) =
      (\<lambda>b. (if b ! r then cis (if v then a else 0) else 1) * pstate qs b)"
  proof (rule ext)
    fix b
    show "(if b ! p \<and> b ! r then cis a else 1) * pstate qs b =
        (if b ! r then cis (if v then a else 0) else 1) * pstate qs b"
    proof (cases "b ! p = v")
      case True
      then show ?thesis by simp
    next
      case False
      then have "pstate qs b = 0"
        using assms by (simp add: pstate_basis_other)
      then show ?thesis by simp
    qed
  qed
  also have "\<dots> = pstate (if v then qs[r := kick a (qs ! r)] else qs)"
  proof (cases v)
    case True
    have "(\<lambda>b. (if b ! r then cis a else 1) * pstate qs b) = pstate (qs[r := kick a (qs ! r)])"
      by (rule phase_on_qubit) (use assms True in \<open>simp_all add: kick_amp\<close>)
    with True show ?thesis by simp
  next
    case False
    then show ?thesis by (simp add: fun_eq_iff)
  qed
  finally show ?thesis .
qed

lemma apply_CX_plus:
  assumes "c < length qs" "t < length qs" "c \<noteq> t"
    and "qs ! c = Plus p" "qs ! t = Plus a" "cis a = z" "z = 1 \<or> z = - 1" "cis d = z"
  shows "apply_gate (CX c t) (pstate qs) = pstate (qs[c := Plus (p + d)])"
proof -
  have flip_t: "amp (qs ! t) (\<not> x) = z * amp (qs ! t) x" for x
    using assms(5-7) by (cases x) auto
  have "apply_gate (CX c t) (pstate qs) = (\<lambda>b. (if b ! c then z else 1) * pstate qs b)"
  proof (rule ext)
    fix b
    show "apply_gate (CX c t) (pstate qs) b = (if b ! c then z else 1) * pstate qs b"
    proof (cases "length b = length qs")
      case True
      show ?thesis
        by (simp add: pstate_upd_arg [OF assms(2) True] pstate_split [OF assms(2) True] flip_t)
    next
      case False
      then show ?thesis by (simp add: pstate_length)
    qed
  qed
  also have "\<dots> = pstate (qs[c := Plus (p + d)])"
    by (rule phase_on_qubit) (use assms in \<open>auto simp flip: cis_mult\<close>)
  finally show ?thesis .
qed

lemma apply_Swap:
  assumes "p < length qs" "q < length qs"
  shows "apply_gate (Swap p q) (pstate qs) = pstate (qs[p := qs ! q, q := qs ! p])"
proof (rule ext)
  fix b
  define \<tau> where "\<tau> i = (if i = p then q else if i = q then p else i)" for i
  show "apply_gate (Swap p q) (pstate qs) b = pstate (qs[p := qs ! q, q := qs ! p]) b"
  proof (cases "length b = length qs")
    case True
    have "(\<Prod>i<length qs. amp (qs ! i) ((b[p := b ! q, q := b ! p]) ! i)) =
        (\<Prod>i<length qs. amp ((qs[p := qs ! q, q := qs ! p]) ! i) (b ! i))"
      by (rule prod.reindex_bij_witness [where i = \<tau> and j = \<tau>])
        (use assms True in \<open>auto simp: \<tau>_def nth_list_update\<close>)
    then show ?thesis
      using True by (simp add: pstate_def)
  next
    case False
    then show ?thesis by (simp add: pstate_def)
  qed
qed

lemma restrict_amp:
  assumes "\<not> is_Plus s"
  shows "(if x = v then amp s x else 0) = amp (restrict v s) x"
  using assms by (cases s) auto

lemma apply_project:
  assumes "q < length qs" "\<not> is_Plus (qs ! q)"
  shows "project q v (pstate qs) = pstate (qs[q := restrict v (qs ! q)])"
proof (rule ext)
  fix b
  have a: "(if x = v then amp (qs ! q) x else 0) = amp (restrict v (qs ! q)) x" for x
    using assms(2) by (rule restrict_amp)
  show "project q v (pstate qs) b = pstate (qs[q := restrict v (qs ! q)]) b"
  proof (cases "length b = length qs")
    case True
    have "project q v (pstate qs) b =
        (if b ! q = v then amp (qs ! q) (b ! q) else 0) *
          (\<Prod>i\<in>{..<length qs} - {q}. amp (qs ! i) (b ! i))"
      by (simp add: project_def pstate_split [OF assms(1) True])
    then show ?thesis
      by (simp only: a pstate_upd_state [OF assms(1) True])
  next
    case False
    then show ?thesis by (simp add: pstate_length project_def)
  qed
qed

lemma pstate_Nil: "pstate [] b = (if b = [] then 1 else 0)"
  by (simp add: pstate_def)

lemma pstate_Cons: "pstate (s # qs) (y # ys) = amp s y * pstate qs ys"
  by (simp add: pstate_def prod.lessThan_Suc_shift del: prod.lessThan_Suc)

lemma pstate_Cons_Nil: "pstate (s # qs) [] = 0"
  by (simp add: pstate_def)

lemma amp_weight: "(cmod (amp s False))\<^sup>2 + (cmod (amp s True))\<^sup>2 = weight s"
  by (cases s) (auto simp: norm_divide power_divide)

lemma sum_list_concat_map:
  "sum_list (map f (concat xss)) = (\<Sum>xs\<leftarrow>xss. sum_list (map f xs))"
  by (induction xss) simp_all

lemma norm2_pstate: "norm2 (length qs) (pstate qs) = prod_list (map weight qs)"
proof (induction qs)
  case Nil
  then show ?case by (simp add: norm2_def pstate_Nil)
next
  case (Cons s qs)
  have "norm2 (length (s # qs)) (pstate (s # qs)) =
      (\<Sum>ys\<leftarrow>List.n_lists (length qs) [False, True].
          (cmod (amp s False))\<^sup>2 * (cmod (pstate qs ys))\<^sup>2 +
          (cmod (amp s True))\<^sup>2 * (cmod (pstate qs ys))\<^sup>2)"
    by (simp add: norm2_def sum_list_concat_map comp_def pstate_Cons norm_mult power_mult_distrib)
  also have "\<dots> = (\<Sum>ys\<leftarrow>List.n_lists (length qs) [False, True].
          weight s * (cmod (pstate qs ys))\<^sup>2)"
    by (simp add: amp_weight [symmetric] algebra_simps)
  also have "\<dots> = weight s * norm2 (length qs) (pstate qs)"
    by (simp add: norm2_def sum_list_const_mult)
  finally show ?case
    by (simp add: Cons.IH)
qed

lemma init_state_pstate: "init_state n = pstate (replicate n (Basis False))"
proof (rule ext)
  fix b
  show "init_state n b = pstate (replicate n (Basis False)) b"
  proof (induction n arbitrary: b)
    case 0
    then show ?case by (simp add: init_state_def pstate_Nil)
  next
    case (Suc n)
    show ?case
    proof (cases b)
      case Nil
      then show ?thesis by (simp add: init_state_def pstate_Cons_Nil)
    next
      case (Cons y ys)
      then show ?thesis
        by (simp add: pstate_Cons Suc [of ys, symmetric]) (simp add: init_state_def)
    qed
  qed
qed

lemma length_sym_gate [simp]: "length (sym_gate g qs) = length qs"
  by (cases g) (auto split: qstate.splits)

lemma controlled_phase_swap:
  "(\<lambda>b. (if b ! c \<and> b ! t then cis a else 1) * pstate qs b) =
   (\<lambda>b. (if b ! t \<and> b ! c then cis a else (1::complex)) * pstate qs b)"
  by (simp add: conj_commute)

lemma sym_gate_sound:
  assumes "gate_ok g qs"
  shows "apply_gate g (pstate qs) = pstate (sym_gate g qs)"
proof (cases g)
  case (H q)
  then show ?thesis using assms by (simp add: apply_H del: apply_gate.simps)
next
  case (X q)
  then show ?thesis using assms by (simp add: apply_X del: apply_gate.simps)
next
  case (CX c t)
  from assms CX obtain p a where st: "qs ! c = Plus p" "qs ! t = Plus a"
    and z: "cis a = 1 \<or> cis a = - 1" and r: "c < length qs" "t < length qs" "c \<noteq> t"
    by (auto split: qstate.splits)
  have "cis (if cis a = 1 then 0 else pi) = cis a"
    using z by auto
  then have "apply_gate (CX c t) (pstate qs) =
      pstate (qs[c := Plus (p + (if cis a = 1 then 0 else pi))])"
    using apply_CX_plus [OF r st refl z] by blast
  then show ?thesis
    using CX st by simp
next
  case (CP a c t)
  from assms CP have r: "c < length qs" "t < length qs" "c \<noteq> t" "t \<noteq> c"
    by auto
  show ?thesis
  proof (cases "\<exists>v. qs ! t = Basis v")
    case True
    then obtain v where v: "qs ! t = Basis v" by blast
    with assms CP have "v \<longrightarrow> qs ! c \<noteq> Basis True" by auto
    from controlled_phase_basis [OF r(2) r(1) r(4) v this, of a]
    show ?thesis
      using CP v by (simp add: conj_commute)
  next
    case False
    with assms CP obtain v where v: "qs ! c = Basis v" and n: "v \<longrightarrow> qs ! t \<noteq> Basis True"
      by (auto split: qstate.splits)
    from controlled_phase_basis [OF r(1) r(2) r(3) v n, of a]
    show ?thesis
      using CP v False by (auto split: qstate.splits)
  qed
next
  case (Swap p q)
  then show ?thesis using assms by (simp add: apply_Swap del: apply_gate.simps)
next
  case Barrier
  then show ?thesis by simp
next
  case (Measure q c)
  then show ?thesis by simp
qed

lemma sym_step_sound:
  assumes "step_ok g bs"
  shows "step g (map conc bs) = map conc (sym_step g bs)"
proof (cases "is_Measure g")
  case True
  then obtain q c where g: "g = Measure q c" by (cases g) auto
  show ?thesis
    using assms unfolding g
    by (induction bs) (auto simp: conc_def apply_project)
next
  case False
  then have 1: "step g (map conc bs) = map (\<lambda>(k, \<psi>). (k, apply_gate g \<psi>)) (map conc bs)"
    by (cases g) (simp_all del: apply_gate.simps)
  from False have 2: "sym_step g bs = map (\<lambda>(k, qs). (k, sym_gate g qs)) bs"
    by (cases g) (simp_all del: sym_gate.simps)
  from False assms have "list_all (\<lambda>(k, qs). gate_ok g qs) bs"
    by (cases g) (simp_all del: gate_ok.simps)
  then have "map (\<lambda>(k, \<psi>). (k, apply_gate g \<psi>)) (map conc bs) =
      map conc (map (\<lambda>(k, qs). (k, sym_gate g qs)) bs)"
    by (auto simp: list_all_iff conc_def sym_gate_sound
        simp del: apply_gate.simps sym_gate.simps gate_ok.simps)
  then show ?thesis
    by (simp only: 1 2)
qed

lemma sym_run_sound:
  assumes "run_ok gs bs"
  shows "foldl (\<lambda>bs g. step g bs) (map conc bs) gs = map conc (sym_run gs bs)"
  using assms
  by (induction gs arbitrary: bs) (simp_all add: sym_step_sound)

lemma sym_step_length:
  assumes "list_all (\<lambda>(k, qs). length qs = n) bs"
  shows "list_all (\<lambda>(k, qs). length qs = n) (sym_step g bs)"
proof (cases "is_Measure g")
  case True
  then obtain q c where g: "g = Measure q c" by (cases g) auto
  show ?thesis
    using assms unfolding g by (induction bs) auto
next
  case False
  then have "sym_step g bs = map (\<lambda>(k, qs). (k, sym_gate g qs)) bs"
    by (cases g) (simp_all del: sym_gate.simps)
  then show ?thesis
    using assms by (auto simp: list_all_iff simp del: sym_gate.simps)
qed

lemma sym_run_length:
  assumes "list_all (\<lambda>(k, qs). length qs = n) bs"
  shows "list_all (\<lambda>(k, qs). length qs = n) (sym_run gs bs)"
  using assms by (induction gs arbitrary: bs) (simp_all add: sym_step_length)

lemma key_prob_sym:
  assumes "run_ok (data qc) [(replicate (num_clbits qc) False, replicate (num_qubits qc) (Basis False))]"
  shows "key_prob qc key =
    (\<Sum>(k, qs)\<leftarrow>sym_run (data qc)
        [(replicate (num_clbits qc) False, replicate (num_qubits qc) (Basis False))].
       if key_of k = key then prod_list (map weight qs) else 0)"
proof -
  let ?b0 = "[(replicate (num_clbits qc) False, replicate (num_qubits qc) (Basis False))]"
  have run: "run_circuit qc = map conc (sym_run (data qc) ?b0)"
    using sym_run_sound [OF assms] by (simp add: run_circuit_def conc_def init_state_pstate)
  have len: "list_all (\<lambda>(k, qs). length qs = num_qubits qc) (sym_run (data qc) ?b0)"
    by (rule sym_run_length) simp
  have "(\<Sum>(k, \<psi>)\<leftarrow>map conc bs. if key_of k = key then norm2 (num_qubits qc) \<psi> else 0) =
        (\<Sum>(k, qs)\<leftarrow>bs. if key_of k = key then prod_list (map weight qs) else 0)"
    if "list_all (\<lambda>(k, qs). length qs = num_qubits qc) bs" for bs
    using that
  proof (induction bs)
    case Nil
    then show ?case by simp
  next
    case (Cons x xs)
    obtain k qs where x: "x = (k, qs)" by (cases x)
    with Cons.prems have "norm2 (num_qubits qc) (pstate qs) = prod_list (map weight qs)"
      using norm2_pstate [of qs] by simp
    with Cons x show ?case by (simp add: conc_def)
  qed
  from this [OF len] show ?thesis
    by (simp add: key_prob_def run)
qed

section \<open>The circuits of the engines\<close>

lemma sonar_ping_circuit_data:
  "sonar_ping_circuit t =
     Inr \<lparr>num_qubits = 2, num_clbits = 1,
          data = (if t then [X 1] else []) @
                 [Barrier, H 0, H 1, CX 0 1, H 1, H 0, Barrier, Measure 0 0]\<rparr>"
  by (simp add: sonar_ping_circuit_def and_then_def append_instr_def instr_ok_def
      QuantumCircuit_def)

lemma ping_key_prob:
  "key_prob \<lparr>num_qubits = 2, num_clbits = 1,
          data = (if t then [X 1] else []) @
                 [Barrier, H 0, H 1, CX 0 1, H 1, H 0, Barrier, Measure 0 0]\<rparr> key =
   (if key = [bit_char t] then 1 else 0)"
proof (cases t)
  case True
  show ?thesis
    unfolding True
    apply (subst key_prob_sym)
     apply (simp add: numeral_2_eq_2)
    apply (simp add: numeral_2_eq_2 key_of_def bit_char_def)
    done
next
  case False
  show ?thesis
    unfolding False
    apply (subst key_prob_sym)
     apply (simp add: numeral_2_eq_2)
    apply (simp add: numeral_2_eq_2 key_of_def bit_char_def)
    done
qed

lemma and_then_Inr: "and_then (Inr x) f = f x"
  by (simp add: and_then_def)

lemma and_then_Inl: "and_then (Inl e) f = Inl e"
  by (simp add: and_then_def)

lemma select_ships_subset:
  "select_ships reg i ts = Inr xs \<Longrightarrow> set xs \<subseteq> set reg"
proof (induction ts arbitrary: i xs)
  case Nil
  then show ?case by simp
next
  case (Cons t ts)
  show ?case
  proof (cases t)
    case True
    with Cons.prems obtain ys where ys: "select_ships reg (i + 1) ts = Inr ys"
      and xs: "xs = reg ! i # ys" and i: "i < length reg"
      by (auto simp: and_then_def split: if_splits sum.splits)
    from Cons.IH [OF ys] xs i show ?thesis by auto
  next
    case False
    with Cons.prems Cons.IH show ?thesis by simp
  qed
qed

lemma upt_3: "[0..<3::nat] = [0, 1, 2]"
  by (simp add: upt_rec)

lemma upt_3_7: "[3..<3 + 4::nat] = [3, 4, 5, 6]"
  by (simp add: upt_rec)

lemma counting_scan_circuit_data:
  assumes "select_ships [3, 4, 5, 6] 0 targets = Inr ships"
  shows "counting_scan_circuit targets =
    Inr \<lparr>num_qubits = 7, num_clbits = 3, data = scan_data ships\<rparr>"
proof -
  have sub: "set ships \<subseteq> {3, 4, 5, 6}"
    using select_ships_subset [OF assms] by simp
  define q0 :: circuit where "q0 = \<lparr>num_qubits = 7, num_clbits = 3, data = []\<rparr>"
  have q0: "QuantumCircuit (3 + 4) 3 = q0"
    by (simp add: QuantumCircuit_def q0_def)
  define q1 where "q1 = q0\<lparr>data := map X ships\<rparr>"
  define q2 where "q2 = q0\<lparr>data := map X ships @ [H 0, H 1, H 2]\<rparr>"
  define row where "row = (\<lambda>c::nat. map (\<lambda>t. CP (2 ^ (3 - 1 - c) * (pi / 4)) c t) ships)"
  define q3 where "q3 = q0\<lparr>data := map X ships @ [H 0, H 1, H 2] @ concat (map row [0, 1, 2])\<rparr>"
  have s1: "for_each ships (\<lambda>i c. append_instr c (X i)) q0 = Inr q1"
  proof -
    have "list_all (instr_ok q0) (map X ships)"
      using sub by (auto simp: list_all_iff instr_ok_def q0_def)
    from for_each_append_instr [OF this] show ?thesis
      by (simp add: q1_def q0_def)
  qed
  have s2: "for_each [0, 1, 2] (\<lambda>q c. append_instr c (H q)) q1 = Inr q2"
    by (simp add: q1_def q2_def q0_def append_instr_def instr_ok_def)
  have s3: "for_each [0, 1, 2]
      (\<lambda>c_idx c. for_each ships (\<lambda>t_idx c'. append_instr c' (CP (2 ^ (3 - 1 - c_idx) * (pi / 4)) c_idx t_idx)) c)
      q2 = Inr q3"
  proof -
    have "for_each [0, 1, 2]
        (\<lambda>c_idx c. for_each ships (\<lambda>t_idx c'. append_instr c' (CP (2 ^ (3 - 1 - c_idx) * (pi / 4)) c_idx t_idx)) c)
        q2 = Inr (q2\<lparr>data := data q2 @ concat (map row [0, 1, 2])\<rparr>)"
    proof (rule for_each_rows)
      fix x :: nat and c :: circuit
      assume x: "x \<in> set [0, 1, 2]" and c: "num_qubits c = num_qubits q2" "num_clbits c = num_clbits q2"
      have "list_all (instr_ok c) (map (\<lambda>t. CP (2 ^ (3 - 1 - x) * (pi / 4)) x t) ships)"
        using sub x c by (auto simp: list_all_iff instr_ok_def q2_def q0_def)
      from for_each_append_instr [OF this]
      show "for_each ships (\<lambda>t_idx c'. append_instr c' (CP (2 ^ (3 - 1 - x) * (pi / 4)) x t_idx)) c =
          Inr (c\<lparr>data := data c @ row x\<rparr>)"
        by (simp add: row_def)
    qed
    then show ?thesis
      by (simp add: q2_def q3_def q0_def)
  qed
  have remap_id: "map (remap [0, 1, 2]) (iqft_data 3) = iqft_data 3"
    by (simp add: iqft_data_3)
  have rows: "concat (map row [0, 1, 2]) =
      concat (map (\<lambda>c. map (\<lambda>t. CP (2 ^ (2 - c) * (pi / 4)) c t) ships) [0, 1, 2])"
    by (simp add: row_def)
  have s4: "and_then (append_instr q3 Barrier) (\<lambda>qc.
      and_then (iqft_gate 3) (\<lambda>sub.
      and_then (append_circuit qc sub [0, 1, 2]) (\<lambda>qc.
      and_then (append_instr qc Barrier) (\<lambda>qc.
      for_each (zip [0, 1, 2] [0, 1, 2]) (\<lambda>(q, c) c'. append_instr c' (Measure q c)) qc)))) =
    Inr \<lparr>num_qubits = 7, num_clbits = 3, data = scan_data ships\<rparr>"
    unfolding rows q3_def q0_def
    by (simp add: and_then_def append_instr_def instr_ok_def iqft_gate_data append_circuit_def
        iqft_data_3 scan_data_def)
  show ?thesis
    unfolding counting_scan_circuit_def Let_def upt_3 upt_3_7 q0
    by (simp only: assms and_then_Inr s1 s2 s3 s4)
qed

section \<open>Outcomes of the counting scan\<close>






















section \<open>Selection of the target qubits\<close>

lemma Nil_in_subseqs: "[] \<in> set (subseqs ys)"
  by (induction ys) (simp_all add: Let_def)

lemma select_ships_subseqs:
  "select_ships reg i ts = Inr xs \<Longrightarrow>
     xs \<in> set (subseqs (drop i reg)) \<and> length xs = count_list ts True"
proof (induction ts arbitrary: i xs)
  case Nil
  then show ?case by (simp add: Nil_in_subseqs)
next
  case (Cons t ts)
  show ?case
  proof (cases t)
    case True
    with Cons.prems obtain ys where ys: "select_ships reg (i + 1) ts = Inr ys"
      and xs: "xs = reg ! i # ys" and i: "i < length reg"
      by (auto simp: and_then_def split: if_splits sum.splits)
    have d: "drop i reg = reg ! i # drop (Suc i) reg"
      using i by (simp add: Cons_nth_drop_Suc)
    from Cons.IH [OF ys] show ?thesis
      using True by (simp add: xs d Let_def)
  next
    case False
    with Cons.prems have ys: "select_ships reg (i + 1) ts = Inr xs"
      by simp
    show ?thesis
    proof (cases "i < length reg")
      case True
      have d: "drop i reg = reg ! i # drop (Suc i) reg"
        using True by (simp add: Cons_nth_drop_Suc)
      from Cons.IH [OF ys] show ?thesis
        using \<open>\<not> t\<close> by (simp add: d Let_def)
    next
      case False
      with Cons.IH [OF ys] show ?thesis
        using \<open>\<not> t\<close> by auto
    qed
  qed
qed


lemma select_ships_IndexError:
  "j < length ts \<Longrightarrow> ts ! j \<Longrightarrow> length reg \<le> i + j \<Longrightarrow> select_ships reg i ts = Inl IndexError"
proof (induction ts arbitrary: i j)
  case Nil
  then show ?case by simp
next
  case (Cons t ts)
  show ?case
  proof (cases j)
    case 0
    with Cons.prems show ?thesis by simp
  next
    case (Suc k)
    with Cons.prems have "select_ships reg (i + 1) ts = Inl IndexError"
      by (intro Cons.IH [of k]) simp_all
    then show ?thesis by (simp add: and_then_def)
  qed
qed

lemma select_ships_indices:
  "select_ships reg i ts = Inr xs \<Longrightarrow>
     xs = map (\<lambda>j. reg ! (i + j)) (filter (\<lambda>j. ts ! j) [0..<length ts])"
proof (induction ts arbitrary: i xs)
  case Nil
  then show ?case by simp
next
  case (Cons t ts)
  have upt: "[0..<length (t # ts)] = 0 # map Suc [0..<length ts]"
    by (simp add: upt_conv_Cons map_Suc_upt del: upt_Suc)
  have flt: "filter ((!) (b # ts)) (map Suc js) = map Suc (filter ((!) ts) js)" for b js
    by (simp add: filter_map comp_def)
  show ?case
  proof (cases t)
    case True
    with Cons.prems obtain ys where ys: "select_ships reg (i + 1) ts = Inr ys"
      and xs: "xs = reg ! i # ys"
      by (auto simp: and_then_def split: if_splits sum.splits)
    from Cons.IH [OF ys] show ?thesis
      unfolding upt using True by (simp add: xs flt comp_def del: upt_Suc)
  next
    case False
    with Cons.prems have ys: "select_ships reg (i + 1) ts = Inr xs"
      by simp
    from Cons.IH [OF ys] show ?thesis
      unfolding upt using False by (simp add: flt comp_def del: upt_Suc)
  qed
qed

section \<open>Results of the engines\<close>



lemma faithful_key:
  "faithful B qc \<Longrightarrow>
     \<exists>tqc key. transpile B qc = Inr tqc \<and> run_shot B tqc = Inr key \<and> 0 < key_prob qc key"
  by (auto simp: faithful_def split: sum.splits)


lemma py_int_bit_char: "py_int [bit_char t] 10 = Inr (of_bool t)"
  by (simp add: py_int_def is_digit_def digit_val_def bit_char_def)

lemma sonar_ping_circuit_ping_data:
  "sonar_ping_circuit t = Inr \<lparr>num_qubits = 2, num_clbits = 1, data = ping_data t\<rparr>"
  by (simp add: sonar_ping_circuit_data ping_data_def)

lemma ping_data_key_prob:
  "key_prob \<lparr>num_qubits = 2, num_clbits = 1, data = ping_data t\<rparr> key =
     (if key = [bit_char t] then 1 else 0)"
  unfolding ping_data_def by (rule ping_key_prob)

lemma ping_result:
  assumes f: "faithful B \<lparr>num_qubits = 2, num_clbits = 1, data = ping_data t\<rparr>"
  shows "\<exists>tqc. transpile B \<lparr>num_qubits = 2, num_clbits = 1, data = ping_data t\<rparr> = Inr tqc \<and>
    run_quantum_sonar_ping B t = Inr (of_bool t, tqc)"
proof -
  from faithful_key [OF f] obtain tqc key
    where tqc: "transpile B \<lparr>num_qubits = 2, num_clbits = 1, data = ping_data t\<rparr> = Inr tqc"
      and key: "run_shot B tqc = Inr key"
      and pos: "0 < key_prob \<lparr>num_qubits = 2, num_clbits = 1, data = ping_data t\<rparr> key"
    by blast
  from pos have k: "key = [bit_char t]"
    unfolding ping_data_key_prob by (simp split: if_splits)
  have "py_int key 10 = Inr (of_bool t)"
    unfolding k by (rule py_int_bit_char)
  then have "run_quantum_sonar_ping B t = Inr (of_bool t, tqc)"
    unfolding run_quantum_sonar_ping_def sonar_ping_circuit_ping_data
    by (simp only: and_then_Inr tqc key)
  with tqc show ?thesis
    by blast
qed

lemma transpile_ideal [simp]: "transpile ideal_backend qc = Inr qc"
  by (simp add: ideal_backend_def)

lemma faithful_ideal:
  assumes "key \<in> set (bitstrings (num_clbits qc))" and "0 < key_prob qc key"
  shows "faithful ideal_backend qc"
proof (cases "filter (\<lambda>key. 0 < key_prob qc key) (bitstrings (num_clbits qc))")
  case Nil
  with assms show ?thesis
    by (simp add: filter_empty_conv)
next
  case (Cons k ks)
  then have "k \<in> set (filter (\<lambda>key. 0 < key_prob qc key) (bitstrings (num_clbits qc)))"
    by simp
  then have "0 < key_prob qc k"
    by simp
  with Cons show ?thesis
    by (simp add: faithful_def ideal_backend_def)
qed



lemma faithful_ideal_ping:
  "faithful ideal_backend \<lparr>num_qubits = 2, num_clbits = 1, data = ping_data t\<rparr>"
proof (rule faithful_ideal)
  show "[bit_char t] \<in> set (bitstrings (num_clbits \<lparr>num_qubits = 2, num_clbits = 1, data = ping_data t\<rparr>))"
    by (simp add: bitstrings_def bit_char_def)
  show "0 < key_prob \<lparr>num_qubits = 2, num_clbits = 1, data = ping_data t\<rparr> [bit_char t]"
    unfolding ping_data_def ping_key_prob by simp
qed


text \<open>
  C2. For every boolean \<open>t\<close> the sonar ping builds its circuit, and the circuit gives
  the key of the bit of \<open>t\<close> with probability 1. So on every backend whose run
  returns a key that the circuit can give, the engine returns 0 when \<open>t\<close> is false
  and 1 when \<open>t\<close> is true (with the transpiled circuit), on every invocation; the
  ideal simulator is such a backend.
\<close>

theorem sonar_ping_deterministic:
  "\<exists>qc. sonar_ping_circuit t = Inr qc \<and>
        key_prob qc [bit_char t] = 1 \<and>
        faithful ideal_backend qc \<and>
        (\<forall>B. faithful B qc \<longrightarrow>
           (\<exists>tqc. transpile B qc = Inr tqc \<and>
                  run_quantum_sonar_ping B t = Inr (of_bool t, tqc)))"
proof -
  let ?qc = "\<lparr>num_qubits = 2, num_clbits = 1, data = ping_data t\<rparr>"
  have 1: "sonar_ping_circuit t = Inr ?qc"
    by (rule sonar_ping_circuit_ping_data)
  have 2: "key_prob ?qc [bit_char t] = 1"
    unfolding ping_data_key_prob by simp
  have 3: "faithful ideal_backend ?qc"
    by (rule faithful_ideal_ping)
  have 4: "\<forall>B. faithful B ?qc \<longrightarrow>
      (\<exists>tqc. transpile B ?qc = Inr tqc \<and> run_quantum_sonar_ping B t = Inr (of_bool t, tqc))"
    using ping_result by blast
  from 1 2 3 4 show ?thesis
    by blast
qed

theorem sonar_ping_deterministic_witness:
  "(\<exists>c. run_quantum_sonar_ping ideal_backend False = Inr (0, c)) \<and>
   (\<exists>c. run_quantum_sonar_ping ideal_backend True = Inr (1, c))"
proof -
  have "\<exists>c. run_quantum_sonar_ping ideal_backend t = Inr (of_bool t, c)" for t
    using sonar_ping_deterministic [of t] by blast
  from this [of False] this [of True] show ?thesis
    by simp
qed




lemma counting_scan_circuit_Inl:
  assumes "select_ships [3, 4, 5, 6] 0 targets = Inl e"
  shows "counting_scan_circuit targets = Inl e"
  unfolding counting_scan_circuit_def Let_def upt_3_7
  by (simp only: assms and_then_Inl)







lemma target_register_nth: "j < 4 \<Longrightarrow> [3, 4, 5, 6] ! j = 3 + j"
proof -
  assume "j < 4"
  then consider "j = 0" | "j = 1" | "j = 2" | "j = 3"
    by linarith
  then show ?thesis
    by cases simp_all
qed

lemma select_ships_marked:
  assumes s: "select_ships [3, 4, 5, 6] 0 targets = Inr ships"
  shows "ships = map (\<lambda>i. 3 + i) (filter (\<lambda>i. targets ! i) [0..<length targets])"
proof -
  have "j < 4" if "j < length targets" "targets ! j" for j
  proof (rule ccontr)
    assume "\<not> j < 4"
    then have "select_ships [3, 4, 5, 6] 0 targets = Inl IndexError"
      using that by (intro select_ships_IndexError [of j]) simp_all
    with s show False
      by simp
  qed
  then have "map (\<lambda>j. [3, 4, 5, 6] ! (0 + j)) (filter (\<lambda>j. targets ! j) [0..<length targets]) =
      map (\<lambda>i. 3 + i) (filter (\<lambda>i. targets ! i) [0..<length targets])"
    by (intro map_cong refl) (simp add: target_register_nth)
  with select_ships_indices [OF s] show ?thesis
    by simp
qed

lemma counting_scan_circuit_Inr:
  assumes "counting_scan_circuit targets = Inr qc"
  shows "\<exists>ships. select_ships [3, 4, 5, 6] 0 targets = Inr ships \<and>
           ships \<in> set (subseqs [3, 4, 5, 6]) \<and>
           qc = \<lparr>num_qubits = 7, num_clbits = 3, data = scan_data ships\<rparr>"
proof (cases "select_ships [3, 4, 5, 6] 0 targets")
  case (Inl e)
  from counting_scan_circuit_Inl [OF this] assms show ?thesis
    by simp
next
  case (Inr ships)
  from counting_scan_circuit_data [OF this] select_ships_subseqs [OF this] assms Inr
  show ?thesis
    by simp
qed

text \<open>
  C6. The circuit of the counting scan begins with a Pauli-X gate on target
  qubit \<open>3 + i\<close> for every position \<open>i\<close> that holds a ship and on no other, and the
  Hadamard gates on the counting qubits. Then, for each counting qubit \<open>c\<close> in
  the order 0, 1, 2, it has one controlled phase with the angle
  \<open>2 ^ (2 - c) * (pi / 4)\<close>, control \<open>c\<close> and target \<open>t\<close> for every target qubit \<open>t\<close>
  that got a Pauli-X gate, in the same order, and for no other target qubit;
  then the barrier, the inverse Fourier sub-circuit and the measurements.
\<close>

theorem kickback_angles:
  assumes "counting_scan_circuit targets = Inr qc"
  shows "data qc =
    (let ship_indices = map (\<lambda>i. 3 + i) (filter (\<lambda>i. targets ! i) [0..<length targets]) in
     map X ship_indices @ [H 0, H 1, H 2] @
     concat (map (\<lambda>c. map (\<lambda>t. CP (2 ^ (2 - c) * (pi / 4)) c t) ship_indices) [0, 1, 2]) @
     [Barrier] @ iqft_data 3 @ [Barrier, Measure 0 0, Measure 1 1, Measure 2 2])"
proof -
  from counting_scan_circuit_Inr [OF assms] obtain ships
    where s: "select_ships [3, 4, 5, 6] 0 targets = Inr ships"
      and qc: "qc = \<lparr>num_qubits = 7, num_clbits = 3, data = scan_data ships\<rparr>"
    by blast
  show ?thesis
    unfolding qc Let_def select_ships_marked [OF s, symmetric]
    by (simp add: scan_data_def)
qed

theorem kickback_angles_witness:
  "\<exists>qc. counting_scan_circuit [False, True, False, True] = Inr qc \<and>
     take 11 (data qc) =
       [X 4, X 6, H 0, H 1, H 2, CP pi 0 4, CP pi 0 6, CP (pi / 2) 1 4, CP (pi / 2) 1 6,
        CP (pi / 4) 2 4, CP (pi / 4) 2 6]"
proof -
  have c: "counting_scan_circuit [False, True, False, True] =
      Inr \<lparr>num_qubits = 7, num_clbits = 3, data = scan_data [4, 6]\<rparr>"
    by (rule counting_scan_circuit_data) (simp add: and_then_def)
  have f: "filter (\<lambda>i. [False, True, False, True] ! i) [0..<length [False, True, False, True]] = [1, 3]"
    by (simp add: upt_rec)
  from kickback_angles [OF c] show ?thesis
    unfolding c f Let_def by simp
qed

section \<open>Properties of the builder on a store\<close>

lemma iqft_gate_call_eq:
  "iqft_gate_call n h =
     (case iqft_gate n of Inl e \<Rightarrow> Inl e | Inr qc \<Rightarrow> Inr (length h, h @ [qc]))"
proof -
  define body where "body =
    for_each (rev [0..<n])
      (\<lambda>i c. case for_each (rev [i + 1..<n])
                    (\<lambda>j c'. case float_of_pow2 (j - i) of
                               Inl e \<Rightarrow> Inl e
                             | Inr d \<Rightarrow> append_instr c' (CP (- pi / d) j i)) c of
               Inl e \<Rightarrow> Inl e
             | Inr c' \<Rightarrow> append_instr c' (H i))"
  define q0 :: circuit where
    "q0 = \<lparr>num_qubits = n, num_clbits = 0, data = map (\<lambda>i. Swap i (n - 1 - i)) [0..<n div 2]\<rparr>"
  have sw: "swap_qubits (QuantumCircuit n 0) n = Inr q0"
    by (simp add: swap_qubits_data QuantumCircuit_def q0_def)
  have g: "iqft_gate n = body q0"
    unfolding iqft_gate_def sw body_def by simp
  have m1: "mutate (length h) (\<lambda>c. swap_qubits c n) (h @ [QuantumCircuit n 0]) = Inr (h @ [q0])"
    by (simp only: mutate_def nth_append_length sw sum.case list_update_length)
  have m2: "mutate (length h) body (h @ [q0]) =
      (case body q0 of Inl e \<Rightarrow> Inl e | Inr qc \<Rightarrow> Inr (h @ [qc]))"
    by (simp only: mutate_def nth_append_length list_update_length)
  have "iqft_gate_call n h = and_then (mutate (length h) body (h @ [q0])) (\<lambda>h'. Inr (length h, h'))"
    unfolding iqft_gate_call_def alloc_def body_def [symmetric]
    by (simp only: prod.case m1 and_then_Inr)
  then show ?thesis
    unfolding m2 g by (simp add: and_then_def split: sum.splits)
qed

lemma iqft_gate_call_result:
  assumes "n \<le> 1024"
  shows "iqft_gate_call n h =
     Inr (length h, h @ [\<lparr>num_qubits = n, num_clbits = 0, data = iqft_data n\<rparr>])"
  by (simp add: iqft_gate_call_eq iqft_gate_data [OF assms])

text \<open>
  C7. Two calls of the builder with the same \<open>n\<close>, one after the other on any
  store. Up to 1024 qubits each call returns a new object, one more than the
  store held before, and leaves every object that existed unchanged, the
  result of the first call among them; both results are the circuit of
  \<open>iqft_gate n\<close>, so their gate sequences are identical. Beyond 1024 qubits both
  calls, from whatever stores, fail alike with \<^verbatim>\<open>OverflowError\<close>.
\<close>

theorem iqft_gate_deterministic:
  "(n \<le> 1024 \<longrightarrow>
      (\<exists>a1 h1 a2 h2.
         iqft_gate_call n h = Inr (a1, h1) \<and> iqft_gate_call n h1 = Inr (a2, h2) \<and>
         a1 = length h \<and> a2 = length h1 \<and> a1 \<noteq> a2 \<and>
         length h1 = Suc (length h) \<and> length h2 = Suc (length h1) \<and>
         take (length h) h1 = h \<and> take (length h1) h2 = h1 \<and>
         iqft_gate n = Inr (h2 ! a1) \<and> iqft_gate n = Inr (h2 ! a2) \<and>
         data (h2 ! a1) = data (h2 ! a2))) \<and>
   (1025 \<le> n \<longrightarrow>
      iqft_gate_call n h = Inl OverflowError \<and> iqft_gate_call n h' = Inl OverflowError)"
  by (simp add: iqft_gate_call_result iqft_gate_data nth_append iqft_gate_call_eq
      iqft_gate_overflow)









theorem iqft_gate_deterministic_witness:
  "(\<exists>h1 h2. iqft_gate_call 3 [] = Inr (0, h1) \<and> iqft_gate_call 3 h1 = Inr (1, h2) \<and>
     length h2 = 2 \<and> data (h2 ! 0) = data (h2 ! 1)) \<and>
   iqft_gate_call 1025 [] = Inl OverflowError"
  using iqft_gate_deterministic [of 3 "[]"] iqft_gate_deterministic [of 1025 "[]" "[]"]
  by auto

section \<open>Decoding in the counting scan\<close>

lemma decode_count_bits:
  "decode_count [bit_char a, bit_char b, bit_char c] =
     Inr (of_bool a + 2 * of_bool b + 4 * of_bool c)"
  by (simp add: decode_count_def py_int_def is_digit_def digit_val_def bit_char_def)

lemma decode_count_bij: "bij_betw decode_count (set (bitstrings 3)) (Inr ` {0..7})"
proof -
  have "distinct (map decode_count (bitstrings 3))"
    unfolding decode_count_bitstrings_3 by simp
  then have inj: "inj_on decode_count (set (bitstrings 3))"
    by (simp add: distinct_map)
  have "set (map decode_count (bitstrings 3)) = Inr ` {0..7::int}"
    unfolding decode_count_bitstrings_3 by (auto simp: image_iff)
  then have "decode_count ` set (bitstrings 3) = Inr ` {0..7}"
    by simp
  with inj show ?thesis
    by (simp add: bij_betw_def)
qed

lemma scan_decode:
  assumes "counting_scan_circuit targets = Inr qc"
    and "transpile B qc = Inr tqc"
    and "run_shot B tqc = Inr key"
  shows "run_quantum_counting_scan B targets =
    (case decode_count key of Inl e \<Rightarrow> Inl e | Inr v \<Rightarrow> Inr (v, tqc))"
  unfolding run_quantum_counting_scan_def
  by (simp add: assms and_then_def)

text \<open>
  C5. When the counting scan has built its circuit and the run of the backend
  returns the key of three characters \<open>a\<close>, \<open>b\<close>, \<open>c\<close>, the scan returns the integer
  \<open>a + 2 * b + 4 * c\<close>, which is the key reversed and read in base 2. As a function
  of the key that the backend returns, the count of the scan is a bijection
  from the eight keys of three bits onto the integers 0 to 7.
\<close>

theorem scan_decode_bijection:
  assumes "counting_scan_circuit targets = Inr qc" and "transpile B qc = Inr tqc"
  shows "(run_shot B tqc = Inr [bit_char a, bit_char b, bit_char c] \<longrightarrow>
            run_quantum_counting_scan B targets =
              Inr (of_bool a + 2 * of_bool b + 4 * of_bool c, tqc)) \<and>
         bij_betw
           (\<lambda>key. map_sum id fst (run_quantum_counting_scan (B\<lparr>run_shot := \<lambda>c. Inr key\<rparr>) targets))
           (set (bitstrings 3)) (Inr ` {0..7})"
proof (intro conjI impI)
  assume "run_shot B tqc = Inr [bit_char a, bit_char b, bit_char c]"
  from scan_decode [OF assms this]
  show "run_quantum_counting_scan B targets =
      Inr (of_bool a + 2 * of_bool b + 4 * of_bool c, tqc)"
    by (simp add: decode_count_bits)
next
  have "map_sum id fst (run_quantum_counting_scan (B\<lparr>run_shot := \<lambda>c. Inr key\<rparr>) targets) =
      decode_count key" for key
    using scan_decode [OF assms(1), of "B\<lparr>run_shot := \<lambda>c. Inr key\<rparr>" tqc key] assms(2)
    by (simp split: sum.splits)
  then show "bij_betw
      (\<lambda>key. map_sum id fst (run_quantum_counting_scan (B\<lparr>run_shot := \<lambda>c. Inr key\<rparr>) targets))
      (set (bitstrings 3)) (Inr ` {0..7})"
    using decode_count_bij by simp
qed

theorem scan_decode_bijection_witness:
  "(\<exists>c. run_quantum_counting_scan (fixed_backend ''100'') [False, True, False, True] = Inr (1, c)) \<and>
   (\<exists>c. run_quantum_counting_scan (fixed_backend ''011'') [False, True, False, True] = Inr (6, c))"
proof -
  have s: "counting_scan_circuit [False, True, False, True] =
      Inr \<lparr>num_qubits = 7, num_clbits = 3, data = scan_data [4, 6]\<rparr>"
    by (rule counting_scan_circuit_data) (simp add: and_then_def)
  have t: "transpile (fixed_backend key) \<lparr>num_qubits = 7, num_clbits = 3, data = scan_data [4, 6]\<rparr> =
      Inr \<lparr>num_qubits = 7, num_clbits = 3,
            data = filter (\<lambda>g. \<not> is_Barrier g) (scan_data [4, 6])\<rparr>" for key
    by (simp add: fixed_backend_def)
  have 1: "\<exists>c. run_quantum_counting_scan (fixed_backend ''100'') [False, True, False, True] =
      Inr (1, c)"
    using scan_decode_bijection [OF s t, of "''100''" True False False]
    by (simp add: fixed_backend_def bit_char_def)
  have 2: "\<exists>c. run_quantum_counting_scan (fixed_backend ''011'') [False, True, False, True] =
      Inr (6, c)"
    using scan_decode_bijection [OF s t, of "''011''" False True True]
    by (simp add: fixed_backend_def bit_char_def)
  from 1 2 show ?thesis
    by simp
qed

end
